theory Spec2Isabelle
  imports Main "HOL-Library.Word"
begin

section \<open>mcproxy: the TCP relay and the UDP association multiplexer of main.go\<close>

text \<open>
  The program is a set of goroutines that talk to sockets. Each goroutine is embedded as a
  step function: an event is one outcome the operating system hands to the goroutine (a dial
  result, a chunk read, a datagram, a clock reading), and the step function performs the
  statements of main.go that run on that outcome. Every call the source makes on a socket or
  on a counter is appended, in program order, to a log kept in the state, so that a property
  of what the proxy sends is a property of that log.
\<close>

subsection \<open>Data\<close>

type_synonym bytes = string

text \<open>\<^verbatim>\<open>net.IP\<close> is a byte slice; \<^verbatim>\<open>net.TCPAddr\<close> and \<^verbatim>\<open>net.UDPAddr\<close> have the same three fields.\<close>

type_synonym ip = "8 word list"

record SockAddr =
  IP :: ip
  Port :: int
  Zone :: string

type_synonym TCPAddr = SockAddr
type_synonym UDPAddr = SockAddr

text \<open>The result of a \<^verbatim>\<open>Write\<close>: everything was written, or an error after some bytes.\<close>

datatype wres = WOk | WErr nat

fun accepted :: "bytes \<times> wres \<Rightarrow> bytes" where
  "accepted (d, WOk) = d"
| "accepted (d, WErr k) = take k d"

subsection \<open>Formatting: the verb \<^verbatim>\<open>%d\<close> of \<^verbatim>\<open>fmt.Sprintf\<close>\<close>

definition digit :: "nat \<Rightarrow> char" where
  "digit d = ''0123456789'' ! d"

function digits :: "nat \<Rightarrow> string" where
  "digits n = (if n < 10 then [digit n] else digits (n div 10) @ [digit (n mod 10)])"
  by pat_completeness auto
termination
  by (relation "measure id") auto

declare digits.simps [simp del]

definition itoa :: "int \<Rightarrow> string" where
  "itoa i = (if i < 0 then CHR ''-'' # digits (nat (- i)) else digits (nat i))"

subsection \<open>handleTCP\<close>

text \<open>
  Line 98. \<^verbatim>\<open>IP.String()\<close> belongs to the Go library, not to this repository, and is a
  parameter \<open>S\<close> of the model: the text of an address, whatever its family.
\<close>

definition proxy_hdr :: "(ip \<Rightarrow> string) \<Rightarrow> TCPAddr \<Rightarrow> TCPAddr \<Rightarrow> string" where
  "proxy_hdr S cliAddr locAddr =
     ''PROXY TCP4 '' @ S (IP cliAddr) @ '' '' @ S (IP locAddr) @ '' '' @
     itoa (Port cliAddr) @ '' '' @ itoa (Port locAddr) @ [CHR 0x0D, CHR 0x0A]"

datatype sock = Client | Backend

text \<open>The goroutine of line 106 copies client to backend, that of line 107 backend to client.\<close>

datatype dir = C2B | B2C

fun src :: "dir \<Rightarrow> sock" where
  "src C2B = Client"
| "src B2C = Backend"

fun dst :: "dir \<Rightarrow> sock" where
  "dst C2B = Backend"
| "dst B2C = Client"

fun other :: "dir \<Rightarrow> dir" where
  "other C2B = B2C"
| "other B2C = C2B"

text \<open>
  Where a copying goroutine stands: inside \<^verbatim>\<open>io.Copy\<close> and about to read, inside
  \<^verbatim>\<open>io.Copy\<close> in a \<^verbatim>\<open>Write\<close> of the bytes it has read that has not returned yet, after
  \<^verbatim>\<open>io.Copy\<close> returned, after \<^verbatim>\<open>SetDeadline\<close>, after \<^verbatim>\<open>wg.Done()\<close>.
\<close>

datatype gstat = Copying | Writing bytes | Copied | Expired | Finished

text \<open>
  Where the handler stands: before line 82, before the dial of line 88, before the header
  write of line 99, in \<^verbatim>\<open>wg.Wait()\<close> of line 108, and after its deferred calls have run.
\<close>

datatype tpc = Entry | Dialing | Connected | Relaying | Returned

datatype tcall =
    AddInt64 "64 word"
  | Dial bool
  | Printf string
  | Write sock bytes wres
  | SetDeadline sock
  | Close sock

record tsession =
  pc :: tpc
  remote :: TCPAddr
  local_addr :: "TCPAddr option"
  c2b :: gstat
  b2c :: gstat
  client_deadline :: bool
  backend_deadline :: bool
  calls :: "tcall list"

fun gor :: "dir \<Rightarrow> tsession \<Rightarrow> gstat" where
  "gor C2B s = c2b s"
| "gor B2C s = b2c s"

fun set_gor :: "dir \<Rightarrow> gstat \<Rightarrow> tsession \<Rightarrow> tsession" where
  "set_gor C2B g s = s\<lparr>c2b := g\<rparr>"
| "set_gor B2C g s = s\<lparr>b2c := g\<rparr>"

fun deadline :: "sock \<Rightarrow> tsession \<Rightarrow> bool" where
  "deadline Client s = client_deadline s"
| "deadline Backend s = backend_deadline s"

fun expire :: "sock \<Rightarrow> tsession \<Rightarrow> tsession" where
  "expire Client s = s\<lparr>client_deadline := True\<rparr>"
| "expire Backend s = s\<lparr>backend_deadline := True\<rparr>"

definition call :: "tcall list \<Rightarrow> tsession \<Rightarrow> tsession" where
  "call cs s = s\<lparr>calls := calls s @ cs\<rparr>"

text \<open>The deferred function of lines 83 to 86, and \<^verbatim>\<open>defer backend.Close()\<close> of line 93.\<close>

definition deferred_client :: "64 word \<times> tsession \<Rightarrow> 64 word \<times> tsession" where
  "deferred_client = (\<lambda>(n, s). (n + (- 1), (call [Close Client, AddInt64 (- 1)] s)\<lparr>pc := Returned\<rparr>))"

definition deferred_backend :: "64 word \<times> tsession \<Rightarrow> 64 word \<times> tsession" where
  "deferred_backend = (\<lambda>(n, s). (n, call [Close Backend] s))"

datatype tevent =
    Enter
  | DialErr
  | DialOk TCPAddr
  | HdrWrite wres
  | CopyChunk dir bytes wres
  | CopyRead dir bytes
  | CopyWrote dir bytes wres
  | CopyStop dir
  | Deadline dir
  | Done dir
  | Return

text \<open>
  One step of the handler on the shared counter \<^verbatim>\<open>activeTCP\<close> and its own session.
  \<^item> \<open>Enter\<close>: line 82.
  \<^item> \<open>DialErr\<close>: lines 88 to 91, then the deferred function.
  \<^item> \<open>DialOk loc\<close>: lines 88 and 93 to 96; \<open>loc\<close> is \<^verbatim>\<open>backend.LocalAddr()\<close>.
  \<^item> \<open>HdrWrite r\<close>: lines 98 to 102; on an error both deferred calls run, last registered first.
  \<^item> \<open>CopyChunk d data r\<close>: one round of \<^verbatim>\<open>io.Copy\<close> in direction \<open>d\<close>: \<^verbatim>\<open>Read\<close> on the
    source gave \<open>data\<close>, \<^verbatim>\<open>Write\<close> on the destination gave \<open>r\<close>; a write error ends the copy.
    A socket whose deadline has passed gives no data any more.
  \<^item> \<open>CopyRead d data\<close> and \<open>CopyWrote d data r\<close>: the same round in two steps, for a
    \<^verbatim>\<open>Write\<close> that blocks: \<^verbatim>\<open>Read\<close> on the source gave \<open>data\<close> and the goroutine is now in
    \<^verbatim>\<open>Write\<close> on the destination; later that \<^verbatim>\<open>Write\<close> returns \<open>r\<close>. Other goroutines take
    steps in between. The deadlines of lines 106 and 107 are set on the destination of the
    goroutine that sets them, so the socket a goroutine writes to has no deadline while that
    goroutine copies, and no step of the other goroutine ends its \<^verbatim>\<open>Write\<close>.
  \<^item> \<open>CopyStop d\<close>: \<^verbatim>\<open>Read\<close> gave EOF or an error, \<^verbatim>\<open>io.Copy\<close> returns.
  \<^item> \<open>Deadline d\<close>, \<open>Done d\<close>: the two statements after \<^verbatim>\<open>io.Copy\<close> in lines 106 and 107.
  \<^item> \<open>Return\<close>: \<^verbatim>\<open>wg.Wait()\<close> returns, then both deferred calls run.
  An event that the code cannot take in the state gives \<open>None\<close>.
\<close>

fun handleTCP :: "(ip \<Rightarrow> string) \<Rightarrow> tevent \<Rightarrow> 64 word \<times> tsession \<Rightarrow> (64 word \<times> tsession) option" where
  "handleTCP S Enter (n, s) =
     (if pc s = Entry then Some (n + 1, (call [AddInt64 1] s)\<lparr>pc := Dialing\<rparr>) else None)"
| "handleTCP S DialErr (n, s) =
     (if pc s = Dialing
      then Some (deferred_client (n, call [Dial False, Printf ''dial backend: %v''] s))
      else None)"
| "handleTCP S (DialOk loc) (n, s) =
     (if pc s = Dialing
      then Some (n, (call [Dial True] s)\<lparr>pc := Connected, local_addr := Some loc\<rparr>)
      else None)"
| "handleTCP S (HdrWrite r) (n, s) =
     (case (pc s, local_addr s) of
        (Connected, Some loc) \<Rightarrow>
          (let s1 = call [Write Backend (proxy_hdr S (remote s) loc) r] s in
           if r = WOk then Some (n, s1\<lparr>pc := Relaying\<rparr>)
           else Some (deferred_client (deferred_backend (n, call [Printf ''write hdr: %v''] s1))))
      | _ \<Rightarrow> None)"
| "handleTCP S (CopyChunk d data r) (n, s) =
     (if pc s = Relaying \<and> gor d s = Copying \<and> \<not> deadline (src d) s
      then (if data = [] then Some (n, s)
            else Some (n, set_gor d (if r = WOk then Copying else Copied)
                            (call [Write (dst d) data r] s)))
      else None)"
| "handleTCP S (CopyRead d data) (n, s) =
     (if pc s = Relaying \<and> gor d s = Copying \<and> \<not> deadline (src d) s \<and> data \<noteq> []
      then Some (n, set_gor d (Writing data) s)
      else None)"
| "handleTCP S (CopyWrote d data r) (n, s) =
     (if pc s = Relaying \<and> gor d s = Writing data
      then Some (n, set_gor d (if r = WOk then Copying else Copied)
                      (call [Write (dst d) data r] s))
      else None)"
| "handleTCP S (CopyStop d) (n, s) =
     (if pc s = Relaying \<and> gor d s = Copying then Some (n, set_gor d Copied s) else None)"
| "handleTCP S (Deadline d) (n, s) =
     (if pc s = Relaying \<and> gor d s = Copied
      then Some (n, set_gor d Expired (expire (dst d) (call [SetDeadline (dst d)] s)))
      else None)"
| "handleTCP S (Done d) (n, s) =
     (if pc s = Relaying \<and> gor d s = Expired then Some (n, set_gor d Finished s) else None)"
| "handleTCP S Return (n, s) =
     (if pc s = Relaying \<and> c2b s = Finished \<and> b2c s = Finished
      then Some (deferred_client (deferred_backend (n, s)))
      else None)"

text \<open>A run of the handler: the events in the order in which they happen.\<close>

fun runTCP :: "(ip \<Rightarrow> string) \<Rightarrow> tevent list \<Rightarrow> 64 word \<times> tsession \<Rightarrow> (64 word \<times> tsession) option" where
  "runTCP S [] x = Some x"
| "runTCP S (e # es) x = (case handleTCP S e x of None \<Rightarrow> None | Some y \<Rightarrow> runTCP S es y)"

text \<open>\<^verbatim>\<open>go handleTCP(c, cfg.Backend.TCP)\<close> of line 77: a new session for the accepted client.\<close>

definition spawn :: "TCPAddr \<Rightarrow> tsession" where
  "spawn cli = \<lparr>pc = Entry, remote = cli, local_addr = None, c2b = Copying, b2c = Copying,
                client_deadline = False, backend_deadline = False, calls = []\<rparr>"

text \<open>What a log says: the writes on a socket, the bytes the socket took.\<close>

fun wlog :: "sock \<Rightarrow> tcall list \<Rightarrow> (bytes \<times> wres) list" where
  "wlog k [] = []"
| "wlog k (Write k' d r # cs) = (if k' = k then (d, r) # wlog k cs else wlog k cs)"
| "wlog k (_ # cs) = wlog k cs"

definition received :: "sock \<Rightarrow> tcall list \<Rightarrow> bytes" where
  "received k cs = concat (map accepted (wlog k cs))"

text \<open>The chunks that \<^verbatim>\<open>io.Copy\<close> read in one direction during a run, with their write results.\<close>

fun chunks :: "dir \<Rightarrow> tevent list \<Rightarrow> (bytes \<times> wres) list" where
  "chunks d [] = []"
| "chunks d (CopyChunk d' data r # es) =
     (if d' = d \<and> data \<noteq> [] then (data, r) # chunks d es else chunks d es)"
| "chunks d (CopyWrote d' data r # es) =
     (if d' = d then (data, r) # chunks d es else chunks d es)"
| "chunks d (_ # es) = chunks d es"

subsection \<open>main: the accept loop and the counter \<^verbatim>\<open>activeTCP\<close>\<close>

record tcp_proc =
  activeTCP :: "64 word"
  conns :: "tsession list"

text \<open>
  Lines 71 to 78. \<open>Accept cli\<close> starts a handler for a client, \<open>AcceptErr\<close> is logged and
  skipped, \<open>Conn i e\<close> lets the handler of the \<open>i\<close>-th accepted connection take the step \<open>e\<close>.
\<close>

datatype pevent = Accept TCPAddr | AcceptErr | Conn nat tevent

fun main_step :: "(ip \<Rightarrow> string) \<Rightarrow> pevent \<Rightarrow> tcp_proc \<Rightarrow> tcp_proc option" where
  "main_step S (Accept cli) p = Some (p\<lparr>conns := conns p @ [spawn cli]\<rparr>)"
| "main_step S AcceptErr p = Some p"
| "main_step S (Conn i e) p =
     (if i < length (conns p)
      then (case handleTCP S e (activeTCP p, conns p ! i) of
              None \<Rightarrow> None
            | Some (n, s) \<Rightarrow> Some \<lparr>activeTCP = n, conns = (conns p)[i := s]\<rparr>)
      else None)"

fun run_main :: "(ip \<Rightarrow> string) \<Rightarrow> pevent list \<Rightarrow> tcp_proc \<Rightarrow> tcp_proc option" where
  "run_main S [] p = Some p"
| "run_main S (e # es) p = (case main_step S e p of None \<Rightarrow> None | Some q \<Rightarrow> run_main S es q)"


text \<open>A session counts as open from line 82 until its deferred function has run.\<close>

definition open_session :: "tsession \<Rightarrow> bool" where
  "open_session s \<longleftrightarrow> pc s \<noteq> Entry \<and> pc s \<noteq> Returned"

subsection \<open>Time\<close>

text \<open>
  A clock reading is a number of nanoseconds; \<^verbatim>\<open>time.Duration\<close> is an \<^verbatim>\<open>int64\<close> of
  nanoseconds, read with \<open>sint\<close>. \<^verbatim>\<open>time.Since(t)\<close> is the reading now minus \<open>t\<close>, kept
  within the range of a duration. Line 59 multiplies the configured seconds, a Go \<^verbatim>\<open>int\<close>
  (64 bits on the build target amd64 of the Makefile), by \<^verbatim>\<open>time.Second\<close> in \<^verbatim>\<open>int64\<close>.
\<close>

type_synonym Duration = "64 word"

definition time_Since :: "int \<Rightarrow> int \<Rightarrow> Duration" where
  "time_Since now t = word_of_int (max (- (2 ^ 63)) (min (2 ^ 63 - 1) (now - t)))"

definition time_Second :: Duration where
  "time_Second = 1000000000"

definition time_Minute :: Duration where
  "time_Minute = 60 * time_Second"

definition idle_of :: "64 word \<Rightarrow> Duration" where
  "idle_of secs = secs * time_Second"

subsection \<open>udpForward\<close>

record assoc =
  cliAddr :: UDPAddr
  backend :: nat
  lastSeen :: int

datatype ucall =
    DialUDP "nat option"
  | AddUDP "64 word"
  | Go nat
  | UWrite nat bytes
  | WriteTo bytes UDPAddr
  | UClose nat
  | Sleep Duration
  | ULog string

text \<open>
  The state behind the lock \<^verbatim>\<open>mu\<close>, and what the goroutines own: the map \<^verbatim>\<open>assocs\<close> with its
  entries in the order of insertion, the read buffer of line 147, the forwarding goroutines
  of lines 169 to 178 that have not returned (each with its socket \<^verbatim>\<open>ac.backend\<close>, its
  \<^verbatim>\<open>ac.cliAddr\<close> and its buffer \<open>b\<close>; the first two are never assigned after line 165), the
  sockets closed so far, and the number of sockets \<^verbatim>\<open>net.DialUDP\<close> has returned, which names
  the next one.
\<close>

record ustate =
  activeUDP :: "64 word"
  assocs :: "(string \<times> assoc) list"
  buf :: bytes
  tasks :: "(nat \<times> UDPAddr \<times> bytes) list"
  closed :: "nat list"
  nsock :: nat
  ucalls :: "ucall list"

definition udp_init :: ustate where
  "udp_init = \<lparr>activeUDP = 0, assocs = [], buf = replicate 2048 (CHR 0x00), tasks = [],
               closed = [], nsock = 0, ucalls = []\<rparr>"

text \<open>
  Reading one datagram \<open>p\<close> into a buffer \<open>b\<close>, on the build target linux: the bytes that fit
  are stored at the front of the buffer, the rest of the datagram is dropped, and the count
  of stored bytes is returned. The caller then uses \<^verbatim>\<open>b[:n]\<close>.
\<close>

definition ReadFrom :: "bytes \<Rightarrow> bytes \<Rightarrow> nat \<times> bytes" where
  "ReadFrom b p = (let n = min (length p) (length b) in (n, take n p @ drop n b))"

text \<open>Lines 180 and 181, on the entry \<open>a\<close> that the map holds under \<open>key\<close>.\<close>

definition refresh :: "string \<Rightarrow> int \<Rightarrow> (string \<times> assoc) list \<Rightarrow> (string \<times> assoc) list" where
  "refresh key t = map (\<lambda>(k, a). if k = key then (k, a\<lparr>lastSeen := t\<rparr>) else (k, a))"

definition forward :: "string \<Rightarrow> assoc \<Rightarrow> int \<Rightarrow> bytes \<Rightarrow> ustate \<Rightarrow> ustate" where
  "forward key a t d s =
     s\<lparr>assocs := refresh key t (assocs s), ucalls := ucalls s @ [UWrite (backend a) d]\<rparr>"

text \<open>
  Lines 149 to 182 for one datagram \<open>p\<close> from \<open>addr\<close>: \<open>dial\<close> says whether \<^verbatim>\<open>net.DialUDP\<close>
  succeeds if it is called, \<open>t0\<close> and \<open>t1\<close> are the clock readings of lines 165 and 180.
\<close>

definition dispatch ::
  "(UDPAddr \<Rightarrow> string) \<Rightarrow> UDPAddr \<Rightarrow> bytes \<Rightarrow> bool \<Rightarrow> int \<Rightarrow> int \<Rightarrow> ustate \<Rightarrow> ustate" where
  "dispatch S addr p dial t0 t1 s0 =
     (let (n, b) = ReadFrom (buf s0) p;
          s = s0\<lparr>buf := b\<rparr>;
          key = S addr
      in case map_of (assocs s) key of
           Some a \<Rightarrow> forward key a t1 (take n b) s
         | None \<Rightarrow>
             if \<not> dial
             then s\<lparr>ucalls := ucalls s @ [DialUDP None, ULog ''dial udp backend: %v'']\<rparr>
             else
               let bc = nsock s;
                   a = \<lparr>cliAddr = addr, backend = bc, lastSeen = t0\<rparr>
               in forward key a t1 (take n b)
                    (s\<lparr>activeUDP := activeUDP s + 1,
                       assocs := assocs s @ [(key, a)],
                       tasks := tasks s @ [(bc, addr, replicate 2048 (CHR 0x00))],
                       nsock := Suc bc,
                       ucalls := ucalls s @ [DialUDP (Some bc), AddUDP 1, Go bc]\<rparr>))"

text \<open>
  Lines 136 to 142, the loop over the map as it is when the lock is taken: \<open>clk k\<close> is the
  clock reading of \<^verbatim>\<open>time.Since\<close> when the loop examines the key \<open>k\<close>. An evicted entry has
  its socket closed, is deleted, and the counter goes down by one.
\<close>

definition evict :: "string \<Rightarrow> assoc \<Rightarrow> ustate \<Rightarrow> ustate" where
  "evict k v s =
     s\<lparr>activeUDP := activeUDP s + (- 1),
       assocs := filter (\<lambda>(k', _). k' \<noteq> k) (assocs s),
       closed := closed s @ [backend v],
       ucalls := ucalls s @ [UClose (backend v), AddUDP (- 1)]\<rparr>"

fun sweep :: "(string \<Rightarrow> int) \<Rightarrow> Duration \<Rightarrow> (string \<times> assoc) list \<Rightarrow> ustate \<Rightarrow> ustate" where
  "sweep clk idle [] s = s"
| "sweep clk idle ((k, v) # kvs) s =
     sweep clk idle kvs (if idle <s time_Since (clk k) (lastSeen v) then evict k v s else s)"

definition reap :: "(string \<Rightarrow> int) \<Rightarrow> Duration \<Rightarrow> ustate \<Rightarrow> ustate" where
  "reap clk idle s = sweep clk idle (assocs s) s"

text \<open>
  The events of \<^verbatim>\<open>udpForward\<close> once lines 118 to 130 have set it up.
  \<^item> \<open>ReadErr\<close>: lines 149 to 153.
  \<^item> \<open>Datagram addr p dial t0 t1\<close>: one pass of the listener loop, see \<open>dispatch\<close>.
  \<^item> \<open>Reap clk\<close>: one round of the reaper loop: \<^verbatim>\<open>time.Sleep(time.Minute)\<close> of line 134 has
    returned, and lines 135 to 143 run under the lock.
  \<^item> \<open>BackendDatagram b p\<close>: the forwarding goroutine of socket \<open>b\<close> reads the datagram \<open>p\<close>
    (line 172) and sends it to its client (line 176). A closed socket gives no datagram.
  \<^item> \<open>BackendErr b\<close>: that read gives an error, the goroutine returns (line 174).
\<close>

datatype uevent =
    ReadErr
  | Datagram UDPAddr bytes bool int int
  | Reap "string \<Rightarrow> int"
  | BackendDatagram nat bytes
  | BackendErr nat

fun udpForward :: "(UDPAddr \<Rightarrow> string) \<Rightarrow> Duration \<Rightarrow> uevent \<Rightarrow> ustate \<Rightarrow> ustate option" where
  "udpForward S idle ReadErr s = Some (s\<lparr>ucalls := ucalls s @ [ULog ''udp read: %v'']\<rparr>)"
| "udpForward S idle (Datagram addr p dial t0 t1) s = Some (dispatch S addr p dial t0 t1 s)"
| "udpForward S idle (Reap clk) s =
     Some (reap clk idle (s\<lparr>ucalls := ucalls s @ [Sleep time_Minute]\<rparr>))"
| "udpForward S idle (BackendDatagram bc p) s =
     (case map_of (tasks s) bc of
        None \<Rightarrow> None
      | Some (cli, b) \<Rightarrow>
          if bc \<in> set (closed s) then None
          else
            let (m, b') = ReadFrom b p
            in Some (s\<lparr>tasks := map (\<lambda>(k, c, x). if k = bc then (k, c, b') else (k, c, x)) (tasks s),
                       ucalls := ucalls s @ [WriteTo (take m b') cli]\<rparr>))"
| "udpForward S idle (BackendErr bc) s =
     (case map_of (tasks s) bc of
        None \<Rightarrow> None
      | Some _ \<Rightarrow> Some (s\<lparr>tasks := filter (\<lambda>(k, _). k \<noteq> bc) (tasks s)\<rparr>))"

fun runUDP :: "(UDPAddr \<Rightarrow> string) \<Rightarrow> Duration \<Rightarrow> uevent list \<Rightarrow> ustate \<Rightarrow> ustate option" where
  "runUDP S idle [] s = Some s"
| "runUDP S idle (e # es) s =
     (case udpForward S idle e s of None \<Rightarrow> None | Some s' \<Rightarrow> runUDP S idle es s')"

subsection \<open>loadConfig\<close>

record Config =
  Listen_TCP :: string
  Listen_UDP :: string
  Backend_TCP :: string
  Backend_UDP :: string
  IdleTimeoutSeconds :: "64 word"

text \<open>Lines 38 to 43.\<close>

definition defaults :: Config where
  "defaults = \<lparr>Listen_TCP = '':25565'', Listen_UDP = '':25565'',
               Backend_TCP = ''127.0.0.1:25565'', Backend_UDP = ''127.0.0.1:25565'',
               IdleTimeoutSeconds = 300\<rparr>"

text \<open>
  Lines 45 to 53. \<^verbatim>\<open>os.ReadFile\<close> and \<^verbatim>\<open>toml.Unmarshal\<close> are library calls and parameters
  here: \<open>readFile path\<close> is the content of the file if it can be read, \<open>unmarshal f cfg\<close> is
  \<open>cfg\<close> with the fields that \<open>f\<close> sets, if \<open>f\<close> parses. \<open>Inl\<close> is the exit of \<^verbatim>\<open>log.Fatalf\<close>.
\<close>

definition loadConfig ::
  "(string \<Rightarrow> bytes option) \<Rightarrow> (bytes \<Rightarrow> Config \<Rightarrow> Config option) \<Rightarrow> string \<Rightarrow> string + Config" where
  "loadConfig readFile unmarshal path =
     (let cfg = defaults in
      case readFile path of
        None \<Rightarrow> Inr cfg
      | Some f \<Rightarrow>
          (case unmarshal f cfg of
             None \<Rightarrow> Inl ''parse config: %v''
           | Some cfg' \<Rightarrow> Inr cfg'))"

subsection \<open>Invariants of the TCP handler, and example runs\<close>

definition hdr_inv :: "(ip \<Rightarrow> string) \<Rightarrow> TCPAddr \<Rightarrow> tevent list \<Rightarrow> tsession \<Rightarrow> bool" where
  "hdr_inv S cli es s \<longleftrightarrow>
     remote s = cli \<and>
     (case local_addr s of
        None \<Rightarrow> pc s \<noteq> Connected \<and> pc s \<noteq> Relaying \<and> wlog Backend (calls s) = [] \<and> chunks C2B es = []
      | Some loc \<Rightarrow>
          (pc s = Connected \<and> wlog Backend (calls s) = [] \<and> chunks C2B es = []) \<or>
          (pc s = Relaying \<and> wlog Backend (calls s) = (proxy_hdr S cli loc, WOk) # chunks C2B es) \<or>
          (pc s = Returned \<and> (\<exists>r. wlog Backend (calls s) = (proxy_hdr S cli loc, r) # chunks C2B es
              \<and> (r \<noteq> WOk \<longrightarrow> chunks C2B es = []))))"

definition ex_S :: "ip \<Rightarrow> string" where
  "ex_S a = (if a = [192, 0, 2, 7] then ''192.0.2.7'' else if a = [10, 0, 0, 1] then ''10.0.0.1'' else ''::1'')"

definition ex_cli :: TCPAddr where "ex_cli = \<lparr>IP = [192, 0, 2, 7], Port = 40000, Zone = []\<rparr>"
definition ex_loc :: TCPAddr where "ex_loc = \<lparr>IP = [10, 0, 0, 1], Port = 50000, Zone = []\<rparr>"

definition ex_run :: "tevent list" where
  "ex_run = [Enter, DialOk ex_loc, HdrWrite WOk, CopyChunk C2B ''PING'' WOk]"

definition ex_end :: tsession where
  "ex_end = \<lparr>pc = Relaying, remote = ex_cli, local_addr = Some ex_loc, c2b = Copying, b2c = Copying,
     client_deadline = False, backend_deadline = False,
     calls = [AddInt64 1, Dial True, Write Backend (proxy_hdr ex_S ex_cli ex_loc) WOk, Write Backend ''PING'' WOk]\<rparr>"

fun is_Dial :: "tcall \<Rightarrow> bool" where
  "is_Dial (Dial _) = True"
| "is_Dial _ = False"

definition sess_inv :: "tsession \<Rightarrow> bool" where
  "sess_inv s \<longleftrightarrow>
     count_list (calls s) (Close Client) = (if pc s = Returned then 1 else 0) \<and>
     count_list (calls s) (AddInt64 (- 1)) = (if pc s = Returned then 1 else 0) \<and>
     count_list (calls s) (AddInt64 1) = (if pc s = Entry then 0 else 1) \<and>
     length (filter is_Dial (calls s)) = (if pc s = Entry \<or> pc s = Dialing then 0 else 1) \<and>
     (pc s = Entry \<longrightarrow> calls s = []) \<and>
     (pc s = Dialing \<longrightarrow> calls s = [AddInt64 1]) \<and>
     (local_addr s = None \<longrightarrow> pc s \<noteq> Connected \<and> pc s \<noteq> Relaying \<and>
        (pc s = Returned \<longrightarrow>
           calls s = [AddInt64 1, Dial False, Printf ''dial backend: %v'', Close Client, AddInt64 (- 1)]))"

definition gor_inv :: "tsession \<Rightarrow> bool" where
  "gor_inv s \<longleftrightarrow>
     (pc s = Entry \<or> pc s = Dialing \<or> pc s = Connected \<longrightarrow>
        c2b s = Copying \<and> b2c s = Copying \<and> \<not> client_deadline s \<and> \<not> backend_deadline s) \<and>
     (backend_deadline s \<longleftrightarrow> c2b s = Expired \<or> c2b s = Finished) \<and>
     (client_deadline s \<longleftrightarrow> b2c s = Expired \<or> b2c s = Finished)"

definition weight :: "tsession \<Rightarrow> 64 word" where
  "weight s = (if open_session s then 1 else 0)"



definition ex_copied :: tsession where
  "ex_copied = \<lparr>pc = Relaying, remote = ex_cli, local_addr = Some ex_loc, c2b = Copied, b2c = Copying,
     client_deadline = False, backend_deadline = False,
     calls = [AddInt64 1, Dial True, Write Backend (proxy_hdr ex_S ex_cli ex_loc) WOk]\<rparr>"

definition ex_expired :: tsession where
  "ex_expired = \<lparr>pc = Relaying, remote = ex_cli, local_addr = Some ex_loc, c2b = Expired, b2c = Copying,
     client_deadline = False, backend_deadline = True,
     calls = [AddInt64 1, Dial True, Write Backend (proxy_hdr ex_S ex_cli ex_loc) WOk, SetDeadline Backend]\<rparr>"

definition ex_cli6 :: TCPAddr where
  "ex_cli6 = \<lparr>IP = [0, 0, 0, 0, 0, 0, 0, 0, 0, 0, 0, 0, 0, 0, 0, 1], Port = 40000, Zone = []\<rparr>"

definition ex_hdr6 :: tsession where
  "ex_hdr6 = \<lparr>pc = Relaying, remote = ex_cli6, local_addr = Some ex_loc, c2b = Copying, b2c = Copying,
     client_deadline = False, backend_deadline = False,
     calls = [AddInt64 1, Dial True, Write Backend (proxy_hdr ex_S ex_cli6 ex_loc) WOk]\<rparr>"

definition ex_blocked :: tsession where
  "ex_blocked = \<lparr>pc = Relaying, remote = ex_cli, local_addr = Some ex_loc, c2b = Finished,
     b2c = Writing ''PONG'', client_deadline = False, backend_deadline = True,
     calls = [AddInt64 1, Dial True, Write Backend (proxy_hdr ex_S ex_cli ex_loc) WOk, SetDeadline Backend]\<rparr>"

subsection \<open>Notions used to state the properties of udpForward\<close>

text \<open>An entry is stale for a sweep when line 137 holds for it.\<close>

definition stale :: "(string \<Rightarrow> int) \<Rightarrow> Duration \<Rightarrow> string \<times> assoc \<Rightarrow> bool" where
  "stale clk idle = (\<lambda>(k, v). idle <s time_Since (clk k) (lastSeen v))"

text \<open>The payloads handed to \<^verbatim>\<open>Write\<close> and \<^verbatim>\<open>WriteTo\<close>, in order.\<close>

fun payloads :: "ucall list \<Rightarrow> bytes list" where
  "payloads [] = []"
| "payloads (UWrite b d # cs) = d # payloads cs"
| "payloads (WriteTo d a # cs) = d # payloads cs"
| "payloads (_ # cs) = payloads cs"

definition uinv :: "(UDPAddr \<Rightarrow> string) \<Rightarrow> ustate \<Rightarrow> bool" where
  "uinv S s \<longleftrightarrow>
     distinct (map fst (assocs s)) \<and>
     (\<forall>(k, v) \<in> set (assocs s). k = S (cliAddr v)) \<and>
     length (buf s) = 2048 \<and>
     (\<forall>(k, c, b) \<in> set (tasks s). length b = 2048)"


text \<open>
  The calls that the datagrams of one client key cause during a run, and the payloads of
  those datagrams as the read buffer holds them.
\<close>

fun from_key :: "(UDPAddr \<Rightarrow> string) \<Rightarrow> string \<Rightarrow> uevent \<Rightarrow> bool" where
  "from_key S k (Datagram a p d t0 t1) = (S a = k)"
| "from_key S k _ = False"

fun key_calls :: "(UDPAddr \<Rightarrow> string) \<Rightarrow> Duration \<Rightarrow> string \<Rightarrow> uevent list \<Rightarrow> ustate \<Rightarrow> ucall list" where
  "key_calls S idle k [] s = []"
| "key_calls S idle k (e # es) s =
     (case udpForward S idle e s of
        None \<Rightarrow> []
      | Some s' \<Rightarrow>
          (if from_key S k e then drop (length (ucalls s)) (ucalls s') else []) @
          key_calls S idle k es s')"

fun key_payloads :: "(UDPAddr \<Rightarrow> string) \<Rightarrow> string \<Rightarrow> uevent list \<Rightarrow> bytes list" where
  "key_payloads S k [] = []"
| "key_payloads S k (Datagram a p d t0 t1 # es) =
     (if S a = k then take 2048 p # key_payloads S k es else key_payloads S k es)"
| "key_payloads S k (_ # es) = key_payloads S k es"

text \<open>
  The datagrams of a key arrive at intervals shorter than the idle timeout: \<open>t\<close> is the clock
  reading of line 180 for the last one, each next one is read less than \<open>idle\<close> later, and a
  sweep that runs before a next datagram reads the clock no later than that datagram does.
\<close>

fun next_seen :: "(UDPAddr \<Rightarrow> string) \<Rightarrow> string \<Rightarrow> uevent list \<Rightarrow> int option" where
  "next_seen S k [] = None"
| "next_seen S k (Datagram a p d t0 t1 # es) = (if S a = k then Some t1 else next_seen S k es)"
| "next_seen S k (_ # es) = next_seen S k es"

fun spaced :: "(UDPAddr \<Rightarrow> string) \<Rightarrow> Duration \<Rightarrow> string \<Rightarrow> int \<Rightarrow> uevent list \<Rightarrow> bool" where
  "spaced S idle k t [] = True"
| "spaced S idle k t (Datagram a p d t0 t1 # es) =
     (if S a = k then t1 - t < sint idle \<and> spaced S idle k t1 es else spaced S idle k t es)"
| "spaced S idle k t (Reap clk # es) =
     ((case next_seen S k es of None \<Rightarrow> True | Some t' \<Rightarrow> clk k \<le> t') \<and> spaced S idle k t es)"
| "spaced S idle k t (_ # es) = spaced S idle k t es"

subsection \<open>Example runs of udpForward\<close>

definition ex_key :: "UDPAddr \<Rightarrow> string" where
  "ex_key a = (if Port a = 5001 then ''192.0.2.7:5001''
               else if Port a = 5002 then ''192.0.2.8:5002'' else ''192.0.2.9:5003'')"

definition ex_ua :: UDPAddr where
  "ex_ua = \<lparr>IP = [192, 0, 2, 7], Port = 5001, Zone = []\<rparr>"

definition ex_ub :: UDPAddr where
  "ex_ub = \<lparr>IP = [192, 0, 2, 8], Port = 5002, Zone = []\<rparr>"

definition ex_uc :: UDPAddr where
  "ex_uc = \<lparr>IP = [192, 0, 2, 9], Port = 5003, Zone = []\<rparr>"

definition ex_us :: "uevent list" where
  "ex_us = [Datagram ex_ua ''PING'' True 0 0, Datagram ex_ub ''PONG'' True 100000000000 100000000000]"

definition ex_two :: ustate where
  "ex_two = \<lparr>activeUDP = 2,
     assocs = [(''192.0.2.7:5001'', \<lparr>cliAddr = ex_ua, backend = 0, lastSeen = 0\<rparr>),
               (''192.0.2.8:5002'', \<lparr>cliAddr = ex_ub, backend = 1, lastSeen = 100000000000\<rparr>)],
     buf = ''PONG'' @ replicate 2044 (CHR 0x00),
     tasks = [(0, ex_ua, replicate 2048 (CHR 0x00)), (1, ex_ub, replicate 2048 (CHR 0x00))],
     closed = [], nsock = 2,
     ucalls = [DialUDP (Some 0), AddUDP 1, Go 0, UWrite 0 ''PING'',
               DialUDP (Some 1), AddUDP 1, Go 1, UWrite 1 ''PONG'']\<rparr>"

definition ex_clk :: "string \<Rightarrow> int" where
  "ex_clk k = 360000000000"

definition ex_clk_soon :: "string \<Rightarrow> int" where
  "ex_clk_soon k = 100000000001"


section \<open>Properties\<close>

lemma runTCP_append:
  "runTCP S (es @ es') x = (case runTCP S es x of None \<Rightarrow> None | Some y \<Rightarrow> runTCP S es' y)"
  by (induction es arbitrary: x) (auto split: option.splits)

lemma wlog_append: "wlog k (cs @ cs') = wlog k cs @ wlog k cs'"
  by (induction k cs rule: wlog.induct) auto

lemma chunks_append: "chunks d (es @ es') = chunks d es @ chunks d es'"
  by (induction d es rule: chunks.induct) auto

lemma call_simps [simp]:
  "calls (call cs s) = calls s @ cs" "pc (call cs s) = pc s" "remote (call cs s) = remote s"
  "local_addr (call cs s) = local_addr s" "c2b (call cs s) = c2b s" "b2c (call cs s) = b2c s"
  "client_deadline (call cs s) = client_deadline s" "backend_deadline (call cs s) = backend_deadline s"
  by (simp_all add: call_def)

lemma set_gor_simps [simp]:
  "calls (set_gor d g s) = calls s" "pc (set_gor d g s) = pc s" "remote (set_gor d g s) = remote s"
  "local_addr (set_gor d g s) = local_addr s"
  "c2b (set_gor d g s) = (if d = C2B then g else c2b s)"
  "b2c (set_gor d g s) = (if d = B2C then g else b2c s)"
  "client_deadline (set_gor d g s) = client_deadline s"
  "backend_deadline (set_gor d g s) = backend_deadline s"
  by (cases d; simp)+

lemma expire_simps [simp]:
  "calls (expire k s) = calls s" "pc (expire k s) = pc s" "remote (expire k s) = remote s"
  "local_addr (expire k s) = local_addr s" "c2b (expire k s) = c2b s" "b2c (expire k s) = b2c s"
  "client_deadline (expire k s) = (k = Client \<or> client_deadline s)"
  "backend_deadline (expire k s) = (k = Backend \<or> backend_deadline s)"
  by (cases k; simp)+

lemma handleTCP_cases [consumes 1, case_names Enter DialErr DialOk HdrOk HdrErr Empty Chunk Read Wrote
    Stop Deadline Done Return]:
  assumes "handleTCP S e (n, s) = Some (n', s')"
  obtains
    (Enter) "e = Enter" "pc s = Entry" "n' = n + 1" "s' = (call [AddInt64 1] s)\<lparr>pc := Dialing\<rparr>"
  | (DialErr) "e = DialErr" "pc s = Dialing" "n' = n + (- 1)"
      "s' = (call [Close Client, AddInt64 (- 1)] (call [Dial False, Printf ''dial backend: %v''] s))\<lparr>pc := Returned\<rparr>"
  | (DialOk) loc where "e = DialOk loc" "pc s = Dialing" "n' = n"
      "s' = (call [Dial True] s)\<lparr>pc := Connected, local_addr := Some loc\<rparr>"
  | (HdrOk) loc where "e = HdrWrite WOk" "pc s = Connected" "local_addr s = Some loc" "n' = n"
      "s' = (call [Write Backend (proxy_hdr S (remote s) loc) WOk] s)\<lparr>pc := Relaying\<rparr>"
  | (HdrErr) loc k where "e = HdrWrite (WErr k)" "pc s = Connected" "local_addr s = Some loc" "n' = n + (- 1)"
      "s' = (call [Close Client, AddInt64 (- 1)] (call [Close Backend] (call [Printf ''write hdr: %v'']
               (call [Write Backend (proxy_hdr S (remote s) loc) (WErr k)] s))))\<lparr>pc := Returned\<rparr>"
  | (Empty) d r where "e = CopyChunk d [] r" "pc s = Relaying" "gor d s = Copying" "\<not> deadline (src d) s"
      "n' = n" "s' = s"
  | (Chunk) d data r where "e = CopyChunk d data r" "data \<noteq> []" "pc s = Relaying" "gor d s = Copying"
      "\<not> deadline (src d) s" "n' = n"
      "s' = set_gor d (if r = WOk then Copying else Copied) (call [Write (dst d) data r] s)"
  | (Read) d data where "e = CopyRead d data" "data \<noteq> []" "pc s = Relaying" "gor d s = Copying"
      "\<not> deadline (src d) s" "n' = n" "s' = set_gor d (Writing data) s"
  | (Wrote) d data r where "e = CopyWrote d data r" "pc s = Relaying" "gor d s = Writing data" "n' = n"
      "s' = set_gor d (if r = WOk then Copying else Copied) (call [Write (dst d) data r] s)"
  | (Stop) d where "e = CopyStop d" "pc s = Relaying" "gor d s = Copying" "n' = n" "s' = set_gor d Copied s"
  | (Deadline) d where "e = Deadline d" "pc s = Relaying" "gor d s = Copied" "n' = n"
      "s' = set_gor d Expired (expire (dst d) (call [SetDeadline (dst d)] s))"
  | (Done) d where "e = Done d" "pc s = Relaying" "gor d s = Expired" "n' = n" "s' = set_gor d Finished s"
  | (Return) "e = Return" "pc s = Relaying" "c2b s = Finished" "b2c s = Finished" "n' = n + (- 1)"
      "s' = (call [Close Client, AddInt64 (- 1)] (call [Close Backend] s))\<lparr>pc := Returned\<rparr>"
proof (cases e)
  case Enter
  with assms have "pc s = Entry \<and> n' = n + 1 \<and> s' = (call [AddInt64 1] s)\<lparr>pc := Dialing\<rparr>"
    by (simp split: if_splits)
  with Enter show ?thesis by (simp add: that(1))
next
  case DialErr
  with assms have "pc s = Dialing \<and> n' = n + (- 1) \<and>
      s' = (call [Close Client, AddInt64 (- 1)] (call [Dial False, Printf ''dial backend: %v''] s))\<lparr>pc := Returned\<rparr>"
    by (simp add: deferred_client_def split: if_splits)
  with DialErr show ?thesis by (simp add: that(2))
next
  case (DialOk loc)
  with assms have "pc s = Dialing \<and> n' = n \<and>
      s' = (call [Dial True] s)\<lparr>pc := Connected, local_addr := Some loc\<rparr>"
    by (simp split: if_splits)
  with DialOk show ?thesis by (simp add: that(3))
next
  case (HdrWrite r)
  from assms HdrWrite obtain loc where l: "pc s = Connected" "local_addr s = Some loc"
    by (simp split: tpc.splits option.splits)
  show ?thesis
  proof (cases r)
    case WOk
    with assms HdrWrite l have "n' = n \<and>
        s' = (call [Write Backend (proxy_hdr S (remote s) loc) WOk] s)\<lparr>pc := Relaying\<rparr>"
      by (simp add: Let_def)
    with HdrWrite WOk l show ?thesis by (simp add: that(4))
  next
    case (WErr k)
    with assms HdrWrite l have "n' = n + (- 1) \<and>
        s' = (call [Close Client, AddInt64 (- 1)] (call [Close Backend] (call [Printf ''write hdr: %v'']
               (call [Write Backend (proxy_hdr S (remote s) loc) (WErr k)] s))))\<lparr>pc := Returned\<rparr>"
      by (simp add: Let_def deferred_client_def deferred_backend_def)
    with HdrWrite WErr l show ?thesis by (simp add: that(5))
  qed
next
  case (CopyChunk d data r)
  with assms have g: "pc s = Relaying" "gor d s = Copying" "\<not> deadline (src d) s"
    by (simp_all split: if_splits)
  show ?thesis
  proof (cases "data = []")
    case True
    with assms CopyChunk g have "n' = n \<and> s' = s" by simp
    with CopyChunk True g show ?thesis by (simp add: that(6))
  next
    case False
    with assms CopyChunk g have "n' = n \<and>
        s' = set_gor d (if r = WOk then Copying else Copied) (call [Write (dst d) data r] s)"
      by simp
    with CopyChunk False g show ?thesis using that(7) by blast
  qed
next
  case (CopyRead d data)
  with assms have "data \<noteq> [] \<and> pc s = Relaying \<and> gor d s = Copying \<and> \<not> deadline (src d) s \<and>
      n' = n \<and> s' = set_gor d (Writing data) s"
    by (simp split: if_splits)
  with CopyRead show ?thesis using that(8) by blast
next
  case (CopyWrote d data r)
  with assms have "pc s = Relaying \<and> gor d s = Writing data \<and> n' = n \<and>
      s' = set_gor d (if r = WOk then Copying else Copied) (call [Write (dst d) data r] s)"
    by (simp split: if_splits)
  with CopyWrote show ?thesis using that(9) by blast
next
  case (CopyStop d)
  with assms have "pc s = Relaying \<and> gor d s = Copying \<and> n' = n \<and> s' = set_gor d Copied s"
    by (simp split: if_splits)
  with CopyStop show ?thesis by (simp add: that(10))
next
  case (Deadline d)
  with assms have "pc s = Relaying \<and> gor d s = Copied \<and> n' = n \<and>
      s' = set_gor d Expired (expire (dst d) (call [SetDeadline (dst d)] s))"
    by (simp split: if_splits)
  with Deadline show ?thesis by (simp add: that(11))
next
  case (Done d)
  with assms have "pc s = Relaying \<and> gor d s = Expired \<and> n' = n \<and> s' = set_gor d Finished s"
    by (simp split: if_splits)
  with Done show ?thesis by (simp add: that(12))
next
  case Return
  with assms have "pc s = Relaying \<and> c2b s = Finished \<and> b2c s = Finished \<and> n' = n + (- 1) \<and>
      s' = (call [Close Client, AddInt64 (- 1)] (call [Close Backend] s))\<lparr>pc := Returned\<rparr>"
    by (simp add: deferred_client_def deferred_backend_def split: if_splits)
  with Return show ?thesis by (simp add: that(13))
qed

lemma hdr_inv_spawn: "hdr_inv S cli [] (spawn cli)"
  by (simp add: hdr_inv_def spawn_def)

lemma hdr_inv_step:
  assumes "hdr_inv S cli es s" and "handleTCP S e (n, s) = Some (n', s')"
  shows "hdr_inv S cli (es @ [e]) s'"
  using assms(2)
proof (cases rule: handleTCP_cases)
  case (Chunk d data r)
  with assms(1) show ?thesis
    by (cases d) (auto simp: hdr_inv_def wlog_append chunks_append split: option.splits)
next
  case (Wrote d data r)
  with assms(1) show ?thesis
    by (cases d) (auto simp: hdr_inv_def wlog_append chunks_append split: option.splits)
next
  case (Empty d r)
  with assms(1) show ?thesis
    by (auto simp: hdr_inv_def wlog_append chunks_append split: option.splits)
qed (use assms(1) in \<open>simp_all add: hdr_inv_def wlog_append chunks_append split: option.splits\<close>)

lemma hdr_inv_run:
  "runTCP S es (n, spawn cli) = Some (n', s) \<Longrightarrow> hdr_inv S cli es s"
proof (induction es arbitrary: n' s rule: rev_induct)
  case Nil
  then show ?case by (auto simp: hdr_inv_spawn)
next
  case (snoc e es)
  then obtain m t where 1: "runTCP S es (n, spawn cli) = Some (m, t)" and 2: "handleTCP S e (m, t) = Some (n', s)"
    by (auto simp: runTCP_append split: option.splits)
  from snoc.IH [OF 1] 2 show ?case by (rule hdr_inv_step)
qed

text \<open>
  Claim C1. In every run of the handler in which the dial succeeded, either nothing has been
  written to the backend socket yet, or the first write on it is the line
  \<open>PROXY TCP4 <clientIP> <proxyIP> <clientPort> <proxyPort>\r\n\<close> built from the client's remote
  address and the local address of the dialled socket, and the writes that follow it are
  exactly the chunks read from the client, in order and unchanged; no chunk is relayed
  unless the header was written completely.
\<close>
theorem header_first:
  assumes "runTCP S es (n, spawn cli) = Some (n', s)" and "local_addr s = Some loc"
  shows "(pc s = Connected \<and> wlog Backend (calls s) = []) \<or>
         (\<exists>r. wlog Backend (calls s) = (proxy_hdr S cli loc, r) # chunks C2B es \<and>
              (r \<noteq> WOk \<longrightarrow> chunks C2B es = []) \<and>
              (r = WOk \<longrightarrow> received Backend (calls s) = proxy_hdr S cli loc @ concat (map accepted (chunks C2B es))))"
  using hdr_inv_run [OF assms(1)] assms(2)
  by (auto simp: hdr_inv_def received_def)

lemma itoa_ex: "itoa 40000 = ''40000''" "itoa 50000 = ''50000''"
  by (simp_all add: itoa_def digits.simps digit_def)

lemma ex_hdr: "proxy_hdr ex_S ex_cli ex_loc = ''PROXY TCP4 192.0.2.7 10.0.0.1 40000 50000'' @ [CHR 0x0D, CHR 0x0A]"
  by (simp add: proxy_hdr_def ex_S_def ex_cli_def ex_loc_def itoa_ex)

lemma ex_run_end: "runTCP ex_S ex_run (0, spawn ex_cli) = Some (1, ex_end)"
  by (simp add: ex_run_def ex_end_def spawn_def call_def)

theorem header_first_witness:
  "runTCP ex_S ex_run (0, spawn ex_cli) = Some (1, ex_end) \<and> local_addr ex_end = Some ex_loc \<and>
   received Backend (calls ex_end) = ''PROXY TCP4 192.0.2.7 10.0.0.1 40000 50000'' @ [CHR 0x0D, CHR 0x0A] @ ''PING''"
proof -
  have l: "local_addr ex_end = Some ex_loc" by (simp add: ex_end_def)
  have p: "pc ex_end \<noteq> Connected" by (simp add: ex_end_def)
  have c: "chunks C2B ex_run = [(''PING'', WOk)]" by (simp add: ex_run_def)
  from header_first [OF ex_run_end l] p c
  have "received Backend (calls ex_end) = proxy_hdr ex_S ex_cli ex_loc @ ''PING''"
    by auto
  with ex_run_end l show ?thesis by (simp add: ex_hdr)
qed

lemma sess_inv_spawn: "sess_inv (spawn cli)"
  by (simp add: sess_inv_def spawn_def)

lemma gor_inv_spawn: "gor_inv (spawn cli)"
  by (simp add: gor_inv_def spawn_def)

lemma sess_inv_step:
  assumes "handleTCP S e (n, s) = Some (n', s')" and "sess_inv s"
  shows "sess_inv s'"
  using assms(1)
  by (cases rule: handleTCP_cases) (use assms(2) in \<open>simp_all add: sess_inv_def\<close>)

lemma gor_inv_step:
  assumes "handleTCP S e (n, s) = Some (n', s')" and "gor_inv s"
  shows "gor_inv s'"
  using assms(1)
proof (cases rule: handleTCP_cases)
  case (Chunk d data r)
  with assms(2) show ?thesis by (cases d) (auto simp: gor_inv_def)
next
  case (Read d data)
  with assms(2) show ?thesis by (cases d) (auto simp: gor_inv_def)
next
  case (Wrote d data r)
  with assms(2) show ?thesis by (cases d) (auto simp: gor_inv_def)
next
  case (Stop d)
  with assms(2) show ?thesis by (cases d) (auto simp: gor_inv_def)
next
  case (Deadline d)
  with assms(2) show ?thesis by (cases d) (auto simp: gor_inv_def)
next
  case (Done d)
  with assms(2) show ?thesis by (cases d) (auto simp: gor_inv_def)
qed (use assms(2) in \<open>simp_all add: gor_inv_def\<close>)

lemma counter_step:
  assumes "handleTCP S e (n, s) = Some (n', s')"
  shows "n' - weight s' = n - weight s"
  using assms
  by (cases rule: handleTCP_cases) (simp_all add: weight_def open_session_def)

lemma run_inv:
  "runTCP S es (n, s) = Some (n', s') \<Longrightarrow> sess_inv s \<Longrightarrow> gor_inv s \<Longrightarrow>
   sess_inv s' \<and> gor_inv s' \<and> n' - weight s' = n - weight s"
proof (induction es arbitrary: n s)
  case Nil
  then show ?case by auto
next
  case (Cons e es)
  then obtain m t where 1: "handleTCP S e (n, s) = Some (m, t)" and 2: "runTCP S es (m, t) = Some (n', s')"
    by (auto split: option.splits)
  from sess_inv_step [OF 1 Cons.prems(2)] gor_inv_step [OF 1 Cons.prems(3)] counter_step [OF 1] Cons.IH [OF 2]
  show ?case by simp
qed


text \<open>
  Claim C8, as amended. In a session, a direction whose copy has finished can always take its
  next step, and that step sets the deadline on its destination socket, which is the socket
  the other direction reads from and not the one it writes to; once that deadline is set the
  other direction gets no further data and its pending read ends the copy. A direction that
  is blocked in a write has no deadline on the socket it writes to and leaves the write
  only when the write itself returns. The handler leaves the relay only by \<^verbatim>\<open>wg.Wait()\<close>
  returning, when both directions have finished and set their deadlines, and then closes
  both sockets and decrements the counter.
\<close>
theorem half_close:
  assumes "runTCP S es (n, spawn cli) = Some (m, s)" and "handleTCP S e (m, s) = Some (m', s')"
  shows "(\<forall>d. dst d = src (other d) \<and> dst d \<noteq> dst (other d) \<and>
           (gor d s = Copied \<longrightarrow>
              handleTCP S (Deadline d) (m, s) \<noteq> None \<and>
              (gor d s' \<noteq> Copied \<longrightarrow>
                 e = Deadline d \<and> gor d s' = Expired \<and> deadline (dst d) s' \<and>
                 calls s' = calls s @ [SetDeadline (dst d)])) \<and>
           (deadline (src d) s \<longrightarrow>
              (\<forall>data r. handleTCP S (CopyChunk d data r) (m, s) = None) \<and>
              (\<forall>data. handleTCP S (CopyRead d data) (m, s) = None) \<and>
              (gor d s = Copying \<longrightarrow> handleTCP S (CopyStop d) (m, s) \<noteq> None)) \<and>
           (\<forall>data. gor d s = Writing data \<longrightarrow>
              \<not> deadline (dst d) s \<and> handleTCP S (CopyStop d) (m, s) = None \<and>
              (gor d s' \<noteq> Writing data \<longrightarrow> (\<exists>r. e = CopyWrote d data r)))) \<and>
         (pc s = Relaying \<and> pc s' = Returned \<longrightarrow>
            e = Return \<and> c2b s = Finished \<and> b2c s = Finished \<and>
            client_deadline s \<and> backend_deadline s \<and>
            calls s' = calls s @ [Close Backend, Close Client, AddInt64 (- 1)] \<and> m' = m - 1)"
proof -
  from run_inv [OF assms(1) sess_inv_spawn gor_inv_spawn] have g: "gor_inv s" by simp
  have live: "pc s \<noteq> Returned"
    using assms(2) by (cases rule: handleTCP_cases) simp_all
  have early: "c2b s = Copying \<and> b2c s = Copying \<and> \<not> client_deadline s \<and> \<not> backend_deadline s"
    if "pc s \<noteq> Relaying"
    using that live g by (cases "pc s") (simp_all add: gor_inv_def)
  have relay_g: "pc s = Relaying" if "gor d s \<noteq> Copying" for d
    using that early by (cases d) auto
  have relay_d: "pc s = Relaying" if "deadline k s" for k
    using that early by (cases k) auto
  have a: "dst d = src (other d) \<and> dst d \<noteq> dst (other d)" for d by (cases d) simp_all
  have b: "handleTCP S (Deadline d) (m, s) \<noteq> None" if "gor d s = Copied" for d
    using that relay_g [of d] by simp
  have c: "e = Deadline d \<and> gor d s' = Expired \<and> deadline (dst d) s' \<and>
           calls s' = calls s @ [SetDeadline (dst d)]"
    if "gor d s = Copied" "gor d s' \<noteq> Copied" for d
    using assms(2)
  proof (cases rule: handleTCP_cases)
    case (Chunk d' data r)
    with that show ?thesis by (cases d; cases d') simp_all
  next
    case (Read d' data)
    with that show ?thesis by (cases d; cases d') simp_all
  next
    case (Wrote d' data r)
    with that show ?thesis by (cases d; cases d') simp_all
  next
    case (Stop d')
    with that show ?thesis by (cases d; cases d') simp_all
  next
    case (Deadline d')
    with that show ?thesis by (cases d; cases d') simp_all
  next
    case (Done d')
    with that show ?thesis by (cases d; cases d') simp_all
  next
    case Enter
    with that show ?thesis by (cases d) simp_all
  next
    case DialErr
    with that show ?thesis by (cases d) simp_all
  next
    case (DialOk loc)
    with that show ?thesis by (cases d) simp_all
  next
    case (HdrOk loc)
    with that show ?thesis by (cases d) simp_all
  next
    case (HdrErr loc k)
    with that show ?thesis by (cases d) simp_all
  next
    case (Empty d' r)
    with that show ?thesis by simp
  next
    case Return
    with that show ?thesis by (cases d) simp_all
  qed
  have d1: "handleTCP S (CopyChunk d data r) (m, s) = None" if "deadline (src d) s" for d data r
    using that by simp
  have d2: "handleTCP S (CopyRead d data) (m, s) = None" if "deadline (src d) s" for d data
    using that by simp
  have d3: "handleTCP S (CopyStop d) (m, s) \<noteq> None" if "deadline (src d) s" "gor d s = Copying" for d
    using that relay_d [of "src d"] by simp
  have w1: "\<not> deadline (dst d) s" if "gor d s = Writing data" for d data
    using that g by (cases d) (simp_all add: gor_inv_def)
  have w2: "handleTCP S (CopyStop d) (m, s) = None" if "gor d s = Writing data" for d data
    using that by simp
  have w3: "\<exists>r. e = CopyWrote d data r" if "gor d s = Writing data" "gor d s' \<noteq> Writing data" for d data
    using assms(2)
  proof (cases rule: handleTCP_cases)
    case (Chunk d' data' r)
    with that show ?thesis by (cases d; cases d') simp_all
  next
    case (Read d' data')
    with that show ?thesis by (cases d; cases d') simp_all
  next
    case (Wrote d' data' r)
    with that show ?thesis by (cases d; cases d') simp_all
  next
    case (Stop d')
    with that show ?thesis by (cases d; cases d') simp_all
  next
    case (Deadline d')
    with that show ?thesis by (cases d; cases d') simp_all
  next
    case (Done d')
    with that show ?thesis by (cases d; cases d') simp_all
  next
    case Enter
    with that show ?thesis by (cases d) simp_all
  next
    case DialErr
    with that show ?thesis by (cases d) simp_all
  next
    case (DialOk loc)
    with that show ?thesis by (cases d) simp_all
  next
    case (HdrOk loc)
    with that show ?thesis by (cases d) simp_all
  next
    case (HdrErr loc k)
    with that show ?thesis by (cases d) simp_all
  next
    case (Empty d' r)
    with that show ?thesis by simp
  next
    case Return
    with that show ?thesis by (cases d) simp_all
  qed
  have f: "e = Return \<and> c2b s = Finished \<and> b2c s = Finished \<and>
           client_deadline s \<and> backend_deadline s \<and>
           calls s' = calls s @ [Close Backend, Close Client, AddInt64 (- 1)] \<and> m' = m - 1"
    if "pc s = Relaying" "pc s' = Returned"
    using assms(2)
    by (cases rule: handleTCP_cases) (use that g in \<open>simp_all add: gor_inv_def\<close>)
  have per: "dst d = src (other d) \<and> dst d \<noteq> dst (other d) \<and>
           (gor d s = Copied \<longrightarrow>
              handleTCP S (Deadline d) (m, s) \<noteq> None \<and>
              (gor d s' \<noteq> Copied \<longrightarrow>
                 e = Deadline d \<and> gor d s' = Expired \<and> deadline (dst d) s' \<and>
                 calls s' = calls s @ [SetDeadline (dst d)])) \<and>
           (deadline (src d) s \<longrightarrow>
              (\<forall>data r. handleTCP S (CopyChunk d data r) (m, s) = None) \<and>
              (\<forall>data. handleTCP S (CopyRead d data) (m, s) = None) \<and>
              (gor d s = Copying \<longrightarrow> handleTCP S (CopyStop d) (m, s) \<noteq> None)) \<and>
           (\<forall>data. gor d s = Writing data \<longrightarrow>
              \<not> deadline (dst d) s \<and> handleTCP S (CopyStop d) (m, s) = None \<and>
              (gor d s' \<noteq> Writing data \<longrightarrow> (\<exists>r. e = CopyWrote d data r)))" for d
    using a [of d] b [of d] c [of d] d1 [of d] d2 [of d] d3 [of d] w1 [of d] w2 [of d] w3 [of d]
    by (intro conjI impI allI; blast)
  from per f show ?thesis by blast
qed

text \<open>
  Claim C9. For every pair of addresses, whatever their family and whatever text the library
  gives for them, the header starts with \<open>PROXY TCP4 \<close> and continues with the text of the
  client address; the handler does not test the family: once connected it always takes the
  header write, and the first write on the backend socket is that header.
\<close>
theorem tcp4_label:
  assumes "runTCP S es (n, spawn cli) = Some (n', s)"
  shows "(\<forall>a b. take 11 (proxy_hdr S a b) = ''PROXY TCP4 '' \<and>
               drop 11 (proxy_hdr S a b) =
                 S (IP a) @ '' '' @ S (IP b) @ '' '' @ itoa (Port a) @ '' '' @ itoa (Port b) @ [CHR 0x0D, CHR 0x0A]) \<and>
         (pc s = Connected \<longrightarrow> (\<forall>r. handleTCP S (HdrWrite r) (n', s) \<noteq> None)) \<and>
         (wlog Backend (calls s) \<noteq> [] \<longrightarrow>
            (\<exists>loc r. local_addr s = Some loc \<and> hd (wlog Backend (calls s)) = (proxy_hdr S cli loc, r)))"
proof -
  have 1: "take 11 (proxy_hdr S a b) = ''PROXY TCP4 ''" for a b
    by (simp add: proxy_hdr_def)
  have 2: "drop 11 (proxy_hdr S a b) =
      S (IP a) @ '' '' @ S (IP b) @ '' '' @ itoa (Port a) @ '' '' @ itoa (Port b) @ [CHR 0x0D, CHR 0x0A]" for a b
    by (simp add: proxy_hdr_def)
  from run_inv [OF assms sess_inv_spawn gor_inv_spawn] have i: "sess_inv s" by simp
  have 3: "handleTCP S (HdrWrite r) (n', s) \<noteq> None" if "pc s = Connected" for r
    using that i by (cases "local_addr s") (auto simp: sess_inv_def Let_def)
  have 4: "\<exists>loc r. local_addr s = Some loc \<and> hd (wlog Backend (calls s)) = (proxy_hdr S cli loc, r)"
    if "wlog Backend (calls s) \<noteq> []"
    using hdr_inv_run [OF assms] that by (auto simp: hdr_inv_def split: option.splits)
  from 1 2 3 4 show ?thesis by blast
qed

subsection \<open>process\<close>

lemma run_main_append:
  "run_main S (es @ es') p = (case run_main S es p of None \<Rightarrow> None | Some q \<Rightarrow> run_main S es' q)"
  by (induction es arbitrary: p) (auto split: option.splits)










lemma ex_copied_run:
  "runTCP ex_S [Enter, DialOk ex_loc, HdrWrite WOk, CopyStop C2B] (0, spawn ex_cli) = Some (1, ex_copied)"
  by (simp add: ex_copied_def spawn_def call_def)

lemma ex_expired_step: "handleTCP ex_S (Deadline C2B) (1, ex_copied) = Some (1, ex_expired)"
  by (simp add: ex_copied_def ex_expired_def call_def)

theorem half_close_witness:
  "runTCP ex_S [Enter, DialOk ex_loc, HdrWrite WOk, CopyStop C2B] (0, spawn ex_cli) = Some (1, ex_copied) \<and>
   handleTCP ex_S (Deadline C2B) (1, ex_copied) = Some (1, ex_expired) \<and>
   gor C2B ex_copied = Copied \<and> gor C2B ex_expired = Expired \<and>
   deadline (src B2C) ex_expired \<and>
   calls ex_expired = calls ex_copied @ [SetDeadline Backend]"
proof -
  have g: "gor C2B ex_copied = Copied" "gor C2B ex_expired \<noteq> Copied"
    by (simp_all add: ex_copied_def ex_expired_def)
  from half_close [OF ex_copied_run ex_expired_step] g
  have "gor C2B ex_expired = Expired \<and> deadline (dst C2B) ex_expired \<and>
        calls ex_expired = calls ex_copied @ [SetDeadline (dst C2B)]"
    by blast
  with ex_copied_run ex_expired_step g(1) show ?thesis by simp
qed

lemma ex_hdr6_run:
  "runTCP ex_S [Enter, DialOk ex_loc, HdrWrite WOk] (0, spawn ex_cli6) = Some (1, ex_hdr6)"
  by (simp add: ex_hdr6_def spawn_def call_def)

lemma ex_hdr6_text:
  "proxy_hdr ex_S ex_cli6 ex_loc = ''PROXY TCP4 ::1 10.0.0.1 40000 50000'' @ [CHR 0x0D, CHR 0x0A]"
  by (simp add: proxy_hdr_def ex_S_def ex_cli6_def ex_loc_def itoa_ex)

theorem tcp4_label_witness:
  "runTCP ex_S [Enter, DialOk ex_loc, HdrWrite WOk] (0, spawn ex_cli6) = Some (1, ex_hdr6) \<and>
   wlog Backend (calls ex_hdr6) \<noteq> [] \<and>
   fst (hd (wlog Backend (calls ex_hdr6))) = ''PROXY TCP4 ::1 10.0.0.1 40000 50000'' @ [CHR 0x0D, CHR 0x0A]"
proof -
  have w: "wlog Backend (calls ex_hdr6) \<noteq> []" and l: "local_addr ex_hdr6 = Some ex_loc"
    by (simp_all add: ex_hdr6_def)
  from tcp4_label [OF ex_hdr6_run] w l
  have "fst (hd (wlog Backend (calls ex_hdr6))) = proxy_hdr ex_S ex_cli6 ex_loc"
    by auto
  with ex_hdr6_run w show ?thesis by (simp add: ex_hdr6_text)
qed

text \<open>
  The backend-to-client direction has read \<open>PONG\<close> and is blocked in the write to the client;
  then the client-to-backend direction ends, sets its deadline, which goes on the backend
  socket, and is done. The client socket, on which the write is blocked, has no deadline,
  the blocked direction can neither end its copy nor go on to its own deadline, and the
  handler cannot return: the write is not unblocked.
\<close>
theorem half_close_counterexample:
  "runTCP ex_S [Enter, DialOk ex_loc, HdrWrite WOk, CopyRead B2C ''PONG'', CopyStop C2B, Deadline C2B, Done C2B]
     (0, spawn ex_cli) = Some (1, ex_blocked) \<and>
   gor C2B ex_blocked = Finished \<and> gor B2C ex_blocked = Writing ''PONG'' \<and>
   deadline (dst C2B) ex_blocked \<and> \<not> deadline (dst B2C) ex_blocked \<and>
   handleTCP ex_S (CopyStop B2C) (1, ex_blocked) = None \<and>
   handleTCP ex_S (Deadline B2C) (1, ex_blocked) = None \<and>
   handleTCP ex_S Return (1, ex_blocked) = None \<and>
   handleTCP ex_S (CopyWrote B2C ''PONG'' WOk) (1, ex_blocked) \<noteq> None"
  by (simp add: ex_blocked_def spawn_def call_def)

text \<open>
  The two other exit paths are taken as well: a failed header write, and the end of a relay
  in which both directions stopped; each run ends returned, with the counter back at its
  value, one close of the client and one decrement.
\<close>
lemma exit_path_header_failure:
  "\<exists>s. runTCP ex_S [Enter, DialOk ex_loc, HdrWrite (WErr 3)] (5, spawn ex_cli) = Some (5, s) \<and>
       pc s = Returned \<and> count_list (calls s) (Close Client) = 1 \<and>
       count_list (calls s) (AddInt64 (- 1)) = 1 \<and> count_list (calls s) (Close Backend) = 1"
  by (simp add: spawn_def call_def deferred_client_def deferred_backend_def)

lemma exit_path_session_end:
  "\<exists>s. runTCP ex_S [Enter, DialOk ex_loc, HdrWrite WOk, CopyChunk C2B ''PING'' WOk, CopyStop C2B,
                     Deadline C2B, Done C2B, CopyStop B2C, Deadline B2C, Done B2C, Return]
           (5, spawn ex_cli) = Some (5, s) \<and>
       pc s = Returned \<and> count_list (calls s) (Close Client) = 1 \<and>
       count_list (calls s) (AddInt64 (- 1)) = 1 \<and> count_list (calls s) (Close Backend) = 1"
  by (simp add: spawn_def call_def deferred_client_def deferred_backend_def)

lemma payloads_append: "payloads (cs @ cs') = payloads cs @ payloads cs'"
  by (induction cs rule: payloads.induct) simp_all

lemma ReadFrom_take:
  "ReadFrom b p = (n, b') \<Longrightarrow> take n b' = take (length b) p \<and> length b' = length b"
  by (auto simp: ReadFrom_def Let_def min_def)

lemma refresh_keys: "map fst (refresh key t kvs) = map fst kvs"
  by (induction kvs) (auto simp: refresh_def)


lemma refresh_cliAddr:
  "(k, v) \<in> set (refresh key t kvs) \<Longrightarrow> \<exists>v'. (k, v') \<in> set kvs \<and> cliAddr v = cliAddr v' \<and> backend v = backend v'"
  by (induction kvs) (auto simp: refresh_def split: if_splits)

lemma map_of_refresh:
  "map_of (refresh key t kvs) k =
     (case map_of kvs k of None \<Rightarrow> None | Some v \<Rightarrow> Some (if k = key then v\<lparr>lastSeen := t\<rparr> else v))"
  by (induction kvs) (auto simp: refresh_def)

subsection \<open>Sweep\<close>

lemma sweep_effect:
  "assocs (sweep clk idle kvs s) =
     filter (\<lambda>(k, _). k \<notin> fst ` set (filter (stale clk idle) kvs)) (assocs s) \<and>
   activeUDP (sweep clk idle kvs s) = activeUDP s - of_nat (length (filter (stale clk idle) kvs)) \<and>
   closed (sweep clk idle kvs s) = closed s @ map (\<lambda>(k, v). backend v) (filter (stale clk idle) kvs) \<and>
   ucalls (sweep clk idle kvs s) =
     ucalls s @ concat (map (\<lambda>(k, v). [UClose (backend v), AddUDP (- 1)]) (filter (stale clk idle) kvs)) \<and>
   buf (sweep clk idle kvs s) = buf s \<and> tasks (sweep clk idle kvs s) = tasks s \<and>
   nsock (sweep clk idle kvs s) = nsock s"
proof (induction kvs arbitrary: s)
  case Nil
  then show ?case by simp
next
  case (Cons kv kvs)
  obtain k v where kv: "kv = (k, v)" by (cases kv)
  show ?case
  proof (cases "stale clk idle (k, v)")
    case True
    then have "idle <s time_Since (clk k) (lastSeen v)" by (simp add: stale_def)
    with True show ?thesis
      unfolding kv by (simp add: Cons.IH evict_def filter_filter) (auto intro: filter_cong)
  next
    case False
    then have "\<not> idle <s time_Since (clk k) (lastSeen v)" by (simp add: stale_def)
    with False show ?thesis
      unfolding kv by (simp add: Cons.IH)
  qed
qed

lemma distinct_keys_filter:
  assumes "distinct (map fst kvs)"
  shows "filter (\<lambda>(k, _). k \<notin> fst ` set (filter P kvs)) kvs = filter (\<lambda>kv. \<not> P kv) kvs"
proof (rule filter_cong [OF refl])
  fix kv assume m: "kv \<in> set kvs"
  obtain k v where kv: "kv = (k, v)" by (cases kv)
  have "k \<in> fst ` set (filter P kvs) \<longleftrightarrow> P (k, v)"
  proof
    assume "k \<in> fst ` set (filter P kvs)"
    then obtain v' where "(k, v') \<in> set kvs" "P (k, v')" by auto
    with assms m kv have "v' = v" by (meson eq_key_imp_eq_value)
    with \<open>P (k, v')\<close> show "P (k, v)" by simp
  next
    assume "P (k, v)"
    with m kv show "k \<in> fst ` set (filter P kvs)" by force
  qed
  then show "(case kv of (k, _) \<Rightarrow> k \<notin> fst ` set (filter P kvs)) = (\<not> P kv)"
    by (simp add: kv)
qed

lemma reap_effect:
  assumes "distinct (map fst (assocs s))"
  shows "assocs (reap clk idle s) = filter (\<lambda>kv. \<not> stale clk idle kv) (assocs s)"
    and "activeUDP (reap clk idle s) = activeUDP s - of_nat (length (filter (stale clk idle) (assocs s)))"
    and "closed (reap clk idle s) = closed s @ map (\<lambda>(k, v). backend v) (filter (stale clk idle) (assocs s))"
    and "ucalls (reap clk idle s) =
           ucalls s @ concat (map (\<lambda>(k, v). [UClose (backend v), AddUDP (- 1)]) (filter (stale clk idle) (assocs s)))"
    and "buf (reap clk idle s) = buf s" and "tasks (reap clk idle s) = tasks s"
    and "nsock (reap clk idle s) = nsock s"
  using sweep_effect [of clk idle "assocs s" s] distinct_keys_filter [OF assms, of "stale clk idle"]
  by (simp_all add: reap_def)

subsection \<open>Dispatch\<close>

lemma dispatch_known:
  assumes "map_of (assocs s) (S addr) = Some v"
  shows "dispatch S addr p dial t0 t1 s =
           s\<lparr>buf := snd (ReadFrom (buf s) p),
             assocs := refresh (S addr) t1 (assocs s),
             ucalls := ucalls s @ [UWrite (backend v) (take (length (buf s)) p)]\<rparr>"
proof -
  obtain n b where r: "ReadFrom (buf s) p = (n, b)" by (cases "ReadFrom (buf s) p")
  from ReadFrom_take [OF r] assms r show ?thesis
    by (simp add: dispatch_def forward_def)
qed

lemma dispatch_dropped:
  assumes "map_of (assocs s) (S addr) = None" and "\<not> dial"
  shows "dispatch S addr p dial t0 t1 s =
           s\<lparr>buf := snd (ReadFrom (buf s) p),
             ucalls := ucalls s @ [DialUDP None, ULog ''dial udp backend: %v'']\<rparr>"
proof -
  obtain n b where r: "ReadFrom (buf s) p = (n, b)" by (cases "ReadFrom (buf s) p")
  from assms r show ?thesis
    by (simp add: dispatch_def)
qed

lemma dispatch_new:
  assumes "map_of (assocs s) (S addr) = None" and "dial"
  shows "dispatch S addr p dial t0 t1 s =
           s\<lparr>activeUDP := activeUDP s + 1,
             assocs := refresh (S addr) t1
                (assocs s @ [(S addr, \<lparr>cliAddr = addr, backend = nsock s, lastSeen = t0\<rparr>)]),
             buf := snd (ReadFrom (buf s) p),
             tasks := tasks s @ [(nsock s, addr, replicate 2048 (CHR 0x00))],
             nsock := Suc (nsock s),
             ucalls := ucalls s @ [DialUDP (Some (nsock s)), AddUDP 1, Go (nsock s),
                                   UWrite (nsock s) (take (length (buf s)) p)]\<rparr>"
proof -
  obtain n b where r: "ReadFrom (buf s) p = (n, b)" by (cases "ReadFrom (buf s) p")
  from ReadFrom_take [OF r] assms r show ?thesis
    by (simp add: dispatch_def forward_def Let_def)
qed

lemma ReadFrom_length: "length (snd (ReadFrom b p)) = length b"
  by (cases "ReadFrom b p") (simp add: ReadFrom_take)

lemma uinv_dispatch:
  assumes "uinv S s"
  shows "uinv S (dispatch S addr p dial t0 t1 s)"
proof (cases "map_of (assocs s) (S addr)")
  case (Some v)
  from assms show ?thesis
    unfolding dispatch_known [of s S addr v, OF Some] uinv_def
    by (auto simp: refresh_keys ReadFrom_length dest!: refresh_cliAddr)
next
  case None
  then have fresh: "S addr \<notin> fst ` set (assocs s)" by (simp add: map_of_eq_None_iff)
  show ?thesis
  proof (cases dial)
    case False
    from assms show ?thesis
      unfolding dispatch_dropped [of s S addr dial, OF None False] uinv_def by (simp add: ReadFrom_length)
  next
    case True
    from assms fresh show ?thesis
      unfolding dispatch_new [of s S addr dial, OF None True] uinv_def
      by (auto simp: refresh_keys ReadFrom_length dest!: refresh_cliAddr)
  qed
qed

lemma uinv_step:
  assumes "udpForward S idle e s = Some s'" and "uinv S s"
  shows "uinv S s'"
proof (cases e)
  case ReadErr
  with assms show ?thesis by (auto simp: uinv_def)
next
  case (Datagram addr p dial t0 t1)
  with assms uinv_dispatch [OF assms(2)] show ?thesis by auto
next
  case (Reap clk)
  let ?s = "s\<lparr>ucalls := ucalls s @ [Sleep time_Minute]\<rparr>"
  from assms(2) have d: "distinct (map fst (assocs ?s))" by (simp add: uinv_def)
  from Reap assms(1) have s': "s' = reap clk idle ?s" by simp
  from assms(2) show ?thesis
    unfolding s' uinv_def reap_effect [OF d]
    by (auto simp: distinct_map_filter)
next
  case (BackendDatagram bc p)
  with assms(1) obtain cli b where t: "map_of (tasks s) bc = Some (cli, b)"
    by (auto split: option.splits)
  from map_of_SomeD [OF t] assms(2) have "length b = 2048" by (auto simp: uinv_def)
  then have "length (snd (ReadFrom b p)) = 2048" by (simp add: ReadFrom_length)
  with BackendDatagram assms t show ?thesis
    by (auto simp: uinv_def split: if_splits prod.splits)
next
  case (BackendErr bc)
  with assms show ?thesis
    by (auto simp: uinv_def split: option.splits)
qed

lemma uinv_init: "uinv S udp_init"
  by (simp add: uinv_def udp_init_def)

lemma uinv_run: "runUDP S idle es s = Some s' \<Longrightarrow> uinv S s \<Longrightarrow> uinv S s'"
proof (induction es arbitrary: s)
  case Nil
  then show ?case by simp
next
  case (Cons e es)
  then obtain r where 1: "udpForward S idle e s = Some r" and 2: "runUDP S idle es r = Some s'"
    by (auto split: option.splits)
  from Cons.IH [OF 2 uinv_step [OF 1 Cons.prems(2)]] show ?case .
qed

text \<open>
  Claim C4. One round of the reaper, in any state the proxy can reach: after its
  \<^verbatim>\<open>time.Sleep(time.Minute)\<close>, a constant of sixty seconds, the sweep removes from the map
  exactly the entries whose time since last activity is strictly greater than the idle
  timeout, closes the socket of each of them and decrements \<^verbatim>\<open>activeUDP\<close> once for each;
  the other entries stay in the map as they were, and nothing else changes.
\<close>
theorem reaper_sweep:
  assumes "runUDP S idle es udp_init = Some s"
    and "udpForward S idle (Reap clk) s = Some s'"
  shows "assocs s' = filter (\<lambda>(k, v). \<not> sint idle < sint (time_Since (clk k) (lastSeen v))) (assocs s) \<and>
         closed s' = closed s @
           map (\<lambda>(k, v). backend v)
             (filter (\<lambda>(k, v). sint idle < sint (time_Since (clk k) (lastSeen v))) (assocs s)) \<and>
         activeUDP s' = activeUDP s -
           of_nat (length (filter (\<lambda>(k, v). sint idle < sint (time_Since (clk k) (lastSeen v))) (assocs s))) \<and>
         ucalls s' = ucalls s @ [Sleep time_Minute] @
           concat (map (\<lambda>(k, v). [UClose (backend v), AddUDP (- 1)])
             (filter (\<lambda>(k, v). sint idle < sint (time_Since (clk k) (lastSeen v))) (assocs s))) \<and>
         sint time_Minute = 60 * 1000000000 \<and>
         buf s' = buf s \<and> tasks s' = tasks s \<and> nsock s' = nsock s"
proof -
  let ?s = "s\<lparr>ucalls := ucalls s @ [Sleep time_Minute]\<rparr>"
  from uinv_run [OF assms(1) uinv_init] have d: "distinct (map fst (assocs ?s))"
    by (simp add: uinv_def)
  from assms(2) have s': "s' = reap clk idle ?s" by simp
  have st: "stale clk idle = (\<lambda>(k, v). sint idle < sint (time_Since (clk k) (lastSeen v)))"
    by (simp add: stale_def word_sless_alt)
  have m: "sint time_Minute = 60 * 1000000000"
    by (simp add: time_Minute_def time_Second_def)
  show ?thesis
    unfolding s' reap_effect [OF d] st using m by (simp add: case_prod_unfold)
qed

lemma map_of_filter_key: "map_of (filter (\<lambda>(k, _). k \<noteq> bc) xs) bc = None"
  by (induction xs) auto

text \<open>
  Claim C7. In any state the proxy can reach, a step that is not a round of the reaper
  removes no key from the map, closes no socket and does not decrement \<^verbatim>\<open>activeUDP\<close> (it
  leaves the counter or adds one); when a forwarding goroutine returns on a read error the
  map, the counter and the call log are unchanged and only the goroutine is gone; a round of
  the reaper keeps an entry exactly if its time since last activity does not exceed the
  idle timeout.
\<close>
theorem only_reaper_removes:
  assumes "runUDP S idle es udp_init = Some s" and "udpForward S idle e s = Some s'"
  shows "((\<forall>clk. e \<noteq> Reap clk) \<longrightarrow>
            (\<exists>ks. map fst (assocs s') = map fst (assocs s) @ ks) \<and>
            (activeUDP s' = activeUDP s \<or> activeUDP s' = activeUDP s + 1) \<and>
            closed s' = closed s \<and>
            count_list (ucalls s') (AddUDP (- 1)) = count_list (ucalls s) (AddUDP (- 1))) \<and>
         (\<forall>bc. e = BackendErr bc \<longrightarrow>
            assocs s' = assocs s \<and> activeUDP s' = activeUDP s \<and> ucalls s' = ucalls s \<and>
            map_of (tasks s) bc \<noteq> None \<and> map_of (tasks s') bc = None) \<and>
         (\<forall>clk. e = Reap clk \<longrightarrow>
            (\<forall>k v. (k, v) \<in> set (assocs s) \<longrightarrow>
               ((k, v) \<in> set (assocs s')) = (\<not> sint idle < sint (time_Since (clk k) (lastSeen v)))))"
proof (cases e)
  case ReadErr
  with assms(2) show ?thesis by auto
next
  case (Datagram addr p dial t0 t1)
  with assms(2) have s': "s' = dispatch S addr p dial t0 t1 s" by simp
  have "(\<exists>ks. map fst (assocs s') = map fst (assocs s) @ ks) \<and>
        (activeUDP s' = activeUDP s \<or> activeUDP s' = activeUDP s + 1) \<and>
        closed s' = closed s \<and>
        count_list (ucalls s') (AddUDP (- 1)) = count_list (ucalls s) (AddUDP (- 1))"
  proof (cases "map_of (assocs s) (S addr)")
    case (Some v)
    show ?thesis
      unfolding s' dispatch_known [of s S addr v, OF Some] by (simp add: refresh_keys)
  next
    case None
    show ?thesis
    proof (cases dial)
      case False
      show ?thesis
        unfolding s' dispatch_dropped [of s S addr dial, OF None False] by simp
    next
      case True
      show ?thesis
        unfolding s' dispatch_new [of s S addr dial, OF None True] by (simp add: refresh_keys)
    qed
  qed
  with Datagram show ?thesis by simp
next
  case (Reap clk)
  let ?s = "s\<lparr>ucalls := ucalls s @ [Sleep time_Minute]\<rparr>"
  from uinv_run [OF assms(1) uinv_init] have d: "distinct (map fst (assocs ?s))"
    by (simp add: uinv_def)
  from Reap assms(2) have s': "s' = reap clk idle ?s" by simp
  have "((k, v) \<in> set (assocs s')) = (\<not> sint idle < sint (time_Since (clk k) (lastSeen v)))"
    if "(k, v) \<in> set (assocs s)" for k v
    unfolding s' reap_effect(1) [OF d] using that by (simp add: stale_def word_sless_alt)
  with Reap show ?thesis by simp
next
  case (BackendDatagram bc p)
  with assms(2) show ?thesis
    by (auto split: option.splits if_splits prod.splits)
next
  case (BackendErr bc)
  with assms(2) show ?thesis
    by (auto simp: map_of_filter_key split: option.splits)
qed

text \<open>
  Claim C2, as amended. In any state the proxy can reach, a datagram from a client that is
  not dropped for a failed dial is handed to \<^verbatim>\<open>Write\<close> on the backend socket, and a datagram
  from the backend is handed to \<^verbatim>\<open>WriteTo\<close> for the client, byte for byte if it has at most
  2048 bytes, and cut to its first 2048 bytes if it is longer.
\<close>
theorem udp_payload:
  assumes "runUDP S idle es udp_init = Some s" and "udpForward S idle e s = Some s'"
  shows "(\<forall>addr p dial t0 t1. e = Datagram addr p dial t0 t1 \<longrightarrow>
            payloads (ucalls s') = payloads (ucalls s) @
              (if map_of (assocs s) (S addr) = None \<and> \<not> dial then []
               else [if length p \<le> 2048 then p else take 2048 p])) \<and>
         (\<forall>bc p. e = BackendDatagram bc p \<longrightarrow>
            payloads (ucalls s') = payloads (ucalls s) @ [if length p \<le> 2048 then p else take 2048 p])"
proof -
  from uinv_run [OF assms(1) uinv_init] have u: "uinv S s" .
  then have lb: "length (buf s) = 2048" by (simp add: uinv_def)
  have cut: "(if length p \<le> 2048 then p else take 2048 p) = take 2048 p" for p :: bytes
    by simp
  have 1: "payloads (ucalls s') = payloads (ucalls s) @
              (if map_of (assocs s) (S addr) = None \<and> \<not> dial then [] else [take 2048 p])"
    if e: "e = Datagram addr p dial t0 t1" for addr p dial t0 t1
  proof -
    from e assms(2) have s': "s' = dispatch S addr p dial t0 t1 s" by simp
    show ?thesis
    proof (cases "map_of (assocs s) (S addr)")
      case (Some v)
      show ?thesis
        unfolding s' dispatch_known [of s S addr v, OF Some] using Some lb
        by (simp add: payloads_append)
    next
      case None
      show ?thesis
      proof (cases dial)
        case False
        show ?thesis
          unfolding s' dispatch_dropped [of s S addr dial, OF None False] using None False
          by (simp add: payloads_append)
      next
        case True
        show ?thesis
          unfolding s' dispatch_new [of s S addr dial, OF None True] using None True lb
          by (simp add: payloads_append)
      qed
    qed
  qed
  have 2: "payloads (ucalls s') = payloads (ucalls s) @ [take 2048 p]"
    if e: "e = BackendDatagram bc p" for bc p
  proof -
    from e assms(2) obtain cli b where t: "map_of (tasks s) bc = Some (cli, b)"
      by (auto split: option.splits)
    from map_of_SomeD [OF t] u have l: "length b = 2048" by (auto simp: uinv_def)
    obtain m b' where r: "ReadFrom b p = (m, b')" by (cases "ReadFrom b p")
    from ReadFrom_take [OF r] l have "take m b' = take 2048 p" by simp
    with e assms(2) t r show ?thesis
      by (auto simp: payloads_append split: if_splits)
  qed
  from 1 2 show ?thesis unfolding cut by blast
qed

subsection \<open>Counters\<close>





subsection \<open>Durations\<close>

lemma sint_time_Since:
  "sint (time_Since now t) = max (- (2 ^ 63)) (min (2 ^ 63 - 1) (now - t))"
proof -
  let ?d = "max (- (2 ^ 63)) (min (2 ^ 63 - 1) (now - t)) :: int"
  have "sint (word_of_int ?d :: 64 word) = signed_take_bit 63 ?d"
    by (simp add: signed_of_int)
  also have "\<dots> = ?d"
    by (rule signed_take_bit_int_eq_self) simp_all
  finally show ?thesis by (simp add: time_Since_def)
qed

lemma sint_idle_of:
  assumes "- 9223372036 \<le> sint secs" and "sint secs \<le> 9223372036"
  shows "sint (idle_of secs) = sint secs * 1000000000"
proof -
  have "sint (idle_of secs) = signed_take_bit 63 (sint secs * sint (1000000000 :: 64 word))"
    by (simp add: idle_of_def time_Second_def sint_word_mult)
  also have "sint (1000000000 :: 64 word) = 1000000000" by simp
  also have "signed_take_bit 63 (sint secs * 1000000000) = sint secs * 1000000000"
    by (rule signed_take_bit_int_eq_self) (use assms in simp_all)
  finally show ?thesis .
qed

text \<open>
  Claim C10, as amended. If the configured number of seconds is zero or negative and not
  below -9223372036 (so that line 59 does not overflow), a round of the reaper evicts every
  association last seen before the sweep reads the clock, however short the time since:
  the map is empty afterwards, every socket is closed and the counter goes down by the
  number of entries. \<^verbatim>\<open>loadConfig\<close> returns whatever configuration the file decodes to; it
  does not look at the number of seconds.
\<close>
theorem nonpositive_idle:
  assumes "runUDP S (idle_of secs) es udp_init = Some s"
    and "udpForward S (idle_of secs) (Reap clk) s = Some s'"
    and "sint secs \<le> 0" and "- 9223372036 \<le> sint secs"
    and "\<forall>(k, v) \<in> set (assocs s). lastSeen v < clk k"
  shows "assocs s' = [] \<and>
         closed s' = closed s @ map (\<lambda>(k, v). backend v) (assocs s) \<and>
         activeUDP s' = activeUDP s - of_nat (length (assocs s)) \<and>
         (\<forall>readFile unmarshal path f cfg.
            readFile path = Some f \<and> unmarshal f defaults = Some cfg \<and> IdleTimeoutSeconds cfg = secs \<longrightarrow>
            loadConfig readFile unmarshal path = Inr cfg)"
proof -
  let ?s = "s\<lparr>ucalls := ucalls s @ [Sleep time_Minute]\<rparr>"
  from uinv_run [OF assms(1) uinv_init] have d: "distinct (map fst (assocs ?s))"
    by (simp add: uinv_def)
  from assms(2) have s': "s' = reap clk (idle_of secs) ?s" by simp
  from assms(3,4) have "sint (idle_of secs) = sint secs * 1000000000"
    by (intro sint_idle_of) simp_all
  with assms(3) have i: "sint (idle_of secs) \<le> 0" by simp
  have all: "stale clk (idle_of secs) kv" if "kv \<in> set (assocs s)" for kv
  proof -
    obtain k v where kv: "kv = (k, v)" by (cases kv)
    with that assms(5) have "lastSeen v < clk k" by auto
    then have "0 < sint (time_Since (clk k) (lastSeen v))"
      by (simp add: sint_time_Since)
    with i show ?thesis by (simp add: kv stale_def word_sless_alt)
  qed
  then have f: "filter (stale clk (idle_of secs)) (assocs s) = assocs s"
    and g: "filter (\<lambda>kv. \<not> stale clk (idle_of secs) kv) (assocs s) = []"
    by (simp_all add: filter_empty_conv)
  have c: "loadConfig readFile unmarshal path = Inr cfg"
    if "readFile path = Some f \<and> unmarshal f defaults = Some cfg \<and> IdleTimeoutSeconds cfg = secs"
    for readFile unmarshal path f and cfg :: Config
    using that by (simp add: loadConfig_def)
  have "assocs s' = [] \<and>
        closed s' = closed s @ map (\<lambda>(k, v). backend v) (assocs s) \<and>
        activeUDP s' = activeUDP s - of_nat (length (assocs s))"
    unfolding s' reap_effect [OF d] using f g by simp
  with c show ?thesis by blast
qed

subsection \<open>Association stability\<close>

lemma next_seen_None:
  "next_seen S k es = None \<Longrightarrow> key_calls S idle k es s = [] \<and> key_payloads S k es = []"
proof (induction es arbitrary: s)
  case Nil
  then show ?case by simp
next
  case (Cons e es)
  then show ?case by (cases e) (auto split: option.splits if_splits)
qed

lemma spaced_next:
  "spaced S idle k t es \<Longrightarrow> next_seen S k es = Some t' \<Longrightarrow> t' - t < sint idle"
proof (induction es)
  case Nil
  then show ?case by simp
next
  case (Cons e es)
  then show ?case by (cases e) (auto split: if_splits)
qed

lemma map_of_filter_keep:
  assumes "distinct (map fst xs)" and "map_of xs k = Some v" and "P (k, v)"
  shows "map_of (filter P xs) k = Some v"
proof (rule map_of_is_SomeI)
  from assms(1) show "distinct (map fst (filter P xs))" by (rule distinct_map_filter)
  from map_of_SomeD [OF assms(2)] assms(3) show "(k, v) \<in> set (filter P xs)" by simp
qed

lemma key_calls_known:
  assumes "runUDP S idle es s \<noteq> None" and "uinv S s"
    and "map_of (assocs s) k = Some v" and "spaced S idle k (lastSeen v) es"
  shows "key_calls S idle k es s = map (UWrite (backend v)) (key_payloads S k es)"
  using assms
proof (induction es arbitrary: s v)
  case Nil
  then show ?case by simp
next
  case (Cons e es)
  from Cons.prems(1) obtain s' where st: "udpForward S idle e s = Some s'"
    and run: "runUDP S idle es s' \<noteq> None"
    by (auto split: option.splits)
  from uinv_step [OF st Cons.prems(2)] have u': "uinv S s'" .
  from Cons.prems(2) have lb: "length (buf s) = 2048" by (simp add: uinv_def)
  show ?case
  proof (cases e)
    case ReadErr
    with st have "assocs s' = assocs s" by auto
    with Cons.IH [OF run u', of v] Cons.prems(3,4) ReadErr st show ?thesis by simp
  next
    case (Datagram a p dial t0 t1)
    with st have s': "s' = dispatch S a p dial t0 t1 s" by simp
    show ?thesis
    proof (cases "S a = k")
      case True
      with Cons.prems(3) have m: "map_of (assocs s) (S a) = Some v" by simp
      have a': "map_of (assocs s') k = Some (v\<lparr>lastSeen := t1\<rparr>)"
        and c': "ucalls s' = ucalls s @ [UWrite (backend v) (take 2048 p)]"
        unfolding s' dispatch_known [of s S a v, OF m] using m True lb
        by (simp_all add: map_of_refresh)
      from Cons.prems(4) Datagram True have "spaced S idle k (lastSeen (v\<lparr>lastSeen := t1\<rparr>)) es" by simp
      from Cons.IH [OF run u' a' this] Datagram True st c' show ?thesis by simp
    next
      case False
      have a': "map_of (assocs s') k = Some v"
      proof (cases "map_of (assocs s) (S a)")
        case (Some w)
        show ?thesis
          unfolding s' dispatch_known [of s S a w, OF Some] using False Cons.prems(3)
          by (simp add: map_of_refresh)
      next
        case None
        show ?thesis
        proof (cases dial)
          case no: False
          show ?thesis
            unfolding s' dispatch_dropped [of s S a dial, OF None no] using Cons.prems(3) by simp
        next
          case True
          show ?thesis
            unfolding s' dispatch_new [of s S a dial, OF None True] using False Cons.prems(3)
            by (simp add: map_of_refresh map_add_def)
        qed
      qed
      from Cons.prems(4) Datagram False have "spaced S idle k (lastSeen v) es" by simp
      from Cons.IH [OF run u' a' this] Datagram False st show ?thesis by simp
    qed
  next
    case (Reap clk)
    let ?s = "s\<lparr>ucalls := ucalls s @ [Sleep time_Minute]\<rparr>"
    from Cons.prems(2) have d: "distinct (map fst (assocs ?s))" by (simp add: uinv_def)
    from Reap st have s': "s' = reap clk idle ?s" by simp
    show ?thesis
    proof (cases "next_seen S k es")
      case None
      from next_seen_None [OF None, of idle s'] Reap st show ?thesis by simp
    next
      case (Some t')
      with Cons.prems(4) Reap have le: "clk k \<le> t'" and sp: "spaced S idle k (lastSeen v) es"
        by simp_all
      from spaced_next [OF sp Some] le have "clk k - lastSeen v < sint idle" by simp
      moreover have "- (2 ^ 63) \<le> sint idle" using sint_ge [of idle] by simp
      ultimately have "\<not> stale clk idle (k, v)"
        by (simp add: stale_def word_sless_alt sint_time_Since)
      with d Cons.prems(3) have a': "map_of (assocs s') k = Some v"
        unfolding s' reap_effect(1) [OF d] by (intro map_of_filter_keep) simp_all
      from Cons.IH [OF run u' a' sp] Reap st show ?thesis by simp
    qed
  next
    case (BackendDatagram bc p)
    with st have "assocs s' = assocs s" by (auto split: option.splits if_splits prod.splits)
    with Cons.IH [OF run u', of v] Cons.prems(3,4) BackendDatagram st show ?thesis by simp
  next
    case (BackendErr bc)
    with st have "assocs s' = assocs s" by (auto split: option.splits)
    with Cons.IH [OF run u', of v] Cons.prems(3,4) BackendErr st show ?thesis by simp
  qed
qed

lemma one_per_address:
  assumes "distinct (map fst xs)" and "\<forall>(k, v) \<in> set xs. k = S (cliAddr v)"
  shows "length (filter (\<lambda>(k, v). cliAddr v = c) xs) \<le> 1"
  using assms
proof (induction xs)
  case Nil
  then show ?case by simp
next
  case (Cons kv xs)
  obtain k v where kv: "kv = (k, v)" by (cases kv)
  show ?case
  proof (cases "cliAddr v = c")
    case False
    with Cons kv show ?thesis by simp
  next
    case True
    have "filter (\<lambda>(k, v). cliAddr v = c) xs = []"
    proof (rule ccontr)
      assume "filter (\<lambda>(k, v). cliAddr v = c) xs \<noteq> []"
      then obtain k' v' where in': "(k', v') \<in> set xs" and c': "cliAddr v' = c"
        by (auto simp: filter_empty_conv)
      with Cons.prems(2) kv True have "k' = k" by auto
      with in' Cons.prems(1) kv show False by force
    qed
    with kv True show ?thesis by simp
  qed
qed

lemma first_contact:
  assumes "uinv S s"
    and "runUDP S idle (Datagram a p True t0 t1 # es) s \<noteq> None"
    and "map_of (assocs s) (S a) = None"
    and "spaced S idle (S a) t1 es"
  shows "key_calls S idle (S a) (Datagram a p True t0 t1 # es) s =
           [DialUDP (Some (nsock s)), AddUDP 1, Go (nsock s)] @
           map (UWrite (nsock s)) (key_payloads S (S a) (Datagram a p True t0 t1 # es))"
proof -
  let ?r = "dispatch S a p True t0 t1 s"
  let ?v = "\<lparr>cliAddr = a, backend = nsock s, lastSeen = t1\<rparr>"
  from assms(1) have lb: "length (buf s) = 2048" by (simp add: uinv_def)
  from assms(2) have run: "runUDP S idle es ?r \<noteq> None" by simp
  have ur: "uinv S ?r" using assms(1) by (rule uinv_dispatch)
  have m: "map_of (assocs ?r) (S a) = Some ?v"
    and c: "ucalls ?r = ucalls s @ [DialUDP (Some (nsock s)), AddUDP 1, Go (nsock s),
                                   UWrite (nsock s) (take 2048 p)]"
    unfolding dispatch_new [of s S a True, OF assms(3) TrueI] using assms(3) lb
    by (simp_all add: map_of_refresh map_add_def)
  from key_calls_known [OF run ur m] assms(4)
  have "key_calls S idle (S a) es ?r = map (UWrite (nsock s)) (key_payloads S (S a) es)" by simp
  with c show ?thesis by simp
qed

text \<open>
  Claim C3, as amended. In every state the proxy can reach the map holds at most one
  association for a client key and for a client address. From such a state, when the dial
  for the first datagram of an address succeeds and the following datagrams of that
  address arrive at intervals shorter than the idle timeout, the datagrams of that address
  cause exactly one \<^verbatim>\<open>DialUDP\<close>, one increment and one forwarding goroutine, and each of them
  is written to the one socket that dial returned.
\<close>
theorem association_stable:
  assumes "runUDP S idle es0 udp_init = Some s"
  shows "distinct (map fst (assocs s)) \<and>
         (\<forall>c. length (filter (\<lambda>(k, v). cliAddr v = c) (assocs s)) \<le> 1) \<and>
         (\<forall>a p t0 t1 es.
            runUDP S idle (Datagram a p True t0 t1 # es) s \<noteq> None \<and>
            map_of (assocs s) (S a) = None \<and>
            spaced S idle (S a) t1 es \<longrightarrow>
            key_calls S idle (S a) (Datagram a p True t0 t1 # es) s =
              [DialUDP (Some (nsock s)), AddUDP 1, Go (nsock s)] @
              map (UWrite (nsock s)) (key_payloads S (S a) (Datagram a p True t0 t1 # es)))"
proof -
  from uinv_run [OF assms uinv_init] have u: "uinv S s" .
  then have 1: "distinct (map fst (assocs s))" by (simp add: uinv_def)
  from u have "\<forall>(k, v) \<in> set (assocs s). k = S (cliAddr v)" by (simp add: uinv_def)
  from one_per_address [OF 1 this]
  have 2: "length (filter (\<lambda>(k, v). cliAddr v = c) (assocs s)) \<le> 1" for c .
  from 1 2 first_contact [OF u] show ?thesis by blast
qed

lemma ex_two_run: "runUDP ex_key idle ex_us udp_init = Some ex_two"
  by (simp add: ex_us_def ex_two_def udp_init_def dispatch_def ReadFrom_def forward_def refresh_def
      ex_key_def ex_ua_def ex_ub_def Let_def)

lemma ex_numbers:
  "sint (idle_of 300) = 300000000000"
  "sint (idle_of (- 5)) = - 5000000000"
  "sint (idle_of (- 9223372037)) = 9223372036709551616"
  by (simp_all add: idle_of_def time_Second_def)

theorem reaper_sweep_witness:
  "runUDP ex_key (idle_of 300) ex_us udp_init = Some ex_two \<and>
   udpForward ex_key (idle_of 300) (Reap ex_clk) ex_two =
     Some (reap ex_clk (idle_of 300) (ex_two\<lparr>ucalls := ucalls ex_two @ [Sleep time_Minute]\<rparr>)) \<and>
   assocs (reap ex_clk (idle_of 300) (ex_two\<lparr>ucalls := ucalls ex_two @ [Sleep time_Minute]\<rparr>)) =
     [(''192.0.2.8:5002'', \<lparr>cliAddr = ex_ub, backend = 1, lastSeen = 100000000000\<rparr>)] \<and>
   closed (reap ex_clk (idle_of 300) (ex_two\<lparr>ucalls := ucalls ex_two @ [Sleep time_Minute]\<rparr>)) = [0] \<and>
   activeUDP (reap ex_clk (idle_of 300) (ex_two\<lparr>ucalls := ucalls ex_two @ [Sleep time_Minute]\<rparr>)) = 1"
proof -
  let ?s' = "reap ex_clk (idle_of 300) (ex_two\<lparr>ucalls := ucalls ex_two @ [Sleep time_Minute]\<rparr>)"
  have st: "udpForward ex_key (idle_of 300) (Reap ex_clk) ex_two = Some ?s'" by simp
  from reaper_sweep [OF ex_two_run st]
  have "assocs ?s' = [(''192.0.2.8:5002'', \<lparr>cliAddr = ex_ub, backend = 1, lastSeen = 100000000000\<rparr>)] \<and>
        closed ?s' = [0] \<and> activeUDP ?s' = 1"
    by (simp add: ex_two_def ex_clk_def sint_time_Since ex_numbers)
  with ex_two_run st show ?thesis by blast
qed

theorem only_reaper_removes_witness:
  "runUDP ex_key (idle_of 300) ex_us udp_init = Some ex_two \<and>
   udpForward ex_key (idle_of 300) (BackendErr 0) ex_two =
     Some (ex_two\<lparr>tasks := [(1, ex_ub, replicate 2048 (CHR 0x00))]\<rparr>) \<and>
   assocs (ex_two\<lparr>tasks := [(1, ex_ub, replicate 2048 (CHR 0x00))]\<rparr>) = assocs ex_two \<and>
   activeUDP (ex_two\<lparr>tasks := [(1, ex_ub, replicate 2048 (CHR 0x00))]\<rparr>) = 2"
proof -
  let ?s' = "ex_two\<lparr>tasks := [(1, ex_ub, replicate 2048 (CHR 0x00))]\<rparr>"
  have st: "udpForward ex_key (idle_of 300) (BackendErr 0) ex_two = Some ?s'"
    by (simp add: ex_two_def)
  from only_reaper_removes [OF ex_two_run st]
  have "assocs ?s' = assocs ex_two \<and> activeUDP ?s' = activeUDP ex_two" by blast
  moreover have "activeUDP ex_two = 2" by (simp add: ex_two_def)
  ultimately show ?thesis using ex_two_run st by simp
qed

theorem udp_payload_witness:
  "runUDP ex_key (idle_of 300) ex_us udp_init = Some ex_two \<and>
   udpForward ex_key (idle_of 300) (Datagram ex_ua ''HELLO'' False 5 5) ex_two =
     Some (dispatch ex_key ex_ua ''HELLO'' False 5 5 ex_two) \<and>
   payloads (ucalls (dispatch ex_key ex_ua ''HELLO'' False 5 5 ex_two)) = [''PING'', ''PONG'', ''HELLO'']"
proof -
  let ?s' = "dispatch ex_key ex_ua ''HELLO'' False 5 5 ex_two"
  have st: "udpForward ex_key (idle_of 300) (Datagram ex_ua ''HELLO'' False 5 5) ex_two = Some ?s'"
    by simp
  have known: "map_of (assocs ex_two) (ex_key ex_ua) \<noteq> None"
    by (simp add: ex_two_def ex_key_def ex_ua_def)
  from udp_payload [OF ex_two_run st, THEN conjunct1, rule_format, of ex_ua "''HELLO''" False 5 5] known
  have "payloads (ucalls ?s') = payloads (ucalls ex_two) @ [''HELLO'']" by simp
  moreover have "payloads (ucalls ex_two) = [''PING'', ''PONG'']" by (simp add: ex_two_def)
  ultimately show ?thesis using ex_two_run st by simp
qed

text \<open>
  A datagram of 2049 bytes from a new client: what is handed to \<^verbatim>\<open>Write\<close> is 2048 bytes long
  and is not the datagram.
\<close>
theorem udp_payload_counterexample:
  "map_option (payloads \<circ> ucalls)
     (udpForward ex_key (idle_of 300) (Datagram ex_ua (replicate 2049 (CHR ''a'')) True 0 0) udp_init) =
     Some [replicate 2048 (CHR ''a'')] \<and>
   replicate 2048 (CHR ''a'') \<noteq> replicate 2049 (CHR ''a'')"
  by (simp add: udp_init_def dispatch_def ReadFrom_def forward_def refresh_def Let_def
      replicate_eq_replicate)

theorem nonpositive_idle_witness:
  "runUDP ex_key (idle_of (- 5)) ex_us udp_init = Some ex_two \<and>
   udpForward ex_key (idle_of (- 5)) (Reap ex_clk_soon) ex_two =
     Some (reap ex_clk_soon (idle_of (- 5)) (ex_two\<lparr>ucalls := ucalls ex_two @ [Sleep time_Minute]\<rparr>)) \<and>
   sint (- 5 :: 64 word) \<le> 0 \<and> - 9223372036 \<le> sint (- 5 :: 64 word) \<and>
   map (\<lambda>(k, v). ex_clk_soon k - lastSeen v) (assocs ex_two) = [100000000001, 1] \<and>
   assocs (reap ex_clk_soon (idle_of (- 5)) (ex_two\<lparr>ucalls := ucalls ex_two @ [Sleep time_Minute]\<rparr>)) = [] \<and>
   closed (reap ex_clk_soon (idle_of (- 5)) (ex_two\<lparr>ucalls := ucalls ex_two @ [Sleep time_Minute]\<rparr>)) = [0, 1]"
proof -
  let ?s' = "reap ex_clk_soon (idle_of (- 5)) (ex_two\<lparr>ucalls := ucalls ex_two @ [Sleep time_Minute]\<rparr>)"
  have st: "udpForward ex_key (idle_of (- 5)) (Reap ex_clk_soon) ex_two = Some ?s'" by simp
  have a: "sint (- 5 :: 64 word) \<le> 0" and b: "- 9223372036 \<le> sint (- 5 :: 64 word)" by simp_all
  have c: "\<forall>(k, v) \<in> set (assocs ex_two). lastSeen v < ex_clk_soon k"
    by (simp add: ex_two_def ex_clk_soon_def)
  from nonpositive_idle [OF ex_two_run st a b c]
  have "assocs ?s' = [] \<and> closed ?s' = closed ex_two @ map (\<lambda>(k, v). backend v) (assocs ex_two)"
    by blast
  moreover have "closed ex_two @ map (\<lambda>(k, v). backend v) (assocs ex_two) = [0, 1]"
    by (simp add: ex_two_def)
  moreover have "map (\<lambda>(k, v). ex_clk_soon k - lastSeen v) (assocs ex_two) = [100000000001, 1]"
    by (simp add: ex_two_def ex_clk_soon_def)
  ultimately show ?thesis using ex_two_run st a b by simp
qed

text \<open>
  With \<^verbatim>\<open>idle_timeout_seconds = -9223372037\<close> line 59 wraps around to a positive duration of
  about 292 years, and a sweep six minutes after the first datagram evicts nothing.
\<close>
theorem nonpositive_idle_counterexample:
  "sint (- 9223372037 :: 64 word) \<le> 0 \<and>
   sint (idle_of (- 9223372037)) = 9223372036709551616 \<and>
   map_option assocs (runUDP ex_key (idle_of (- 9223372037)) (ex_us @ [Reap ex_clk]) udp_init) =
     Some (assocs ex_two) \<and>
   assocs ex_two \<noteq> []"
proof -
  have "runUDP ex_key (idle_of (- 9223372037)) (ex_us @ [Reap ex_clk]) udp_init =
        udpForward ex_key (idle_of (- 9223372037)) (Reap ex_clk) ex_two"
    using ex_two_run [of "idle_of (- 9223372037)"] by (simp add: ex_us_def)
  moreover have "assocs (reap ex_clk (idle_of (- 9223372037)) (ex_two\<lparr>ucalls := ucalls ex_two @ [Sleep time_Minute]\<rparr>)) =
        assocs ex_two"
    by (simp add: reap_def ex_two_def ex_clk_def word_sless_alt sint_time_Since ex_numbers)
  ultimately show ?thesis
    by (simp add: ex_numbers) (simp add: ex_two_def)
qed

theorem association_stable_witness:
  "runUDP ex_key (idle_of 300) ex_us udp_init = Some ex_two \<and>
   runUDP ex_key (idle_of 300)
     (Datagram ex_uc ''PING'' True 200000000000 200000000000 #
      [Reap ex_clk, Datagram ex_uc ''PONG'' False 400000000000 400000000000]) ex_two \<noteq> None \<and>
   map_of (assocs ex_two) (ex_key ex_uc) = None \<and>
   spaced ex_key (idle_of 300) (ex_key ex_uc) 200000000000
     [Reap ex_clk, Datagram ex_uc ''PONG'' False 400000000000 400000000000] \<and>
   key_calls ex_key (idle_of 300) (ex_key ex_uc)
     (Datagram ex_uc ''PING'' True 200000000000 200000000000 #
      [Reap ex_clk, Datagram ex_uc ''PONG'' False 400000000000 400000000000]) ex_two =
     [DialUDP (Some 2), AddUDP 1, Go 2, UWrite 2 ''PING'', UWrite 2 ''PONG'']"
proof -
  let ?es = "[Reap ex_clk, Datagram ex_uc ''PONG'' False 400000000000 400000000000]"
  have r: "runUDP ex_key (idle_of 300)
      (Datagram ex_uc ''PING'' True 200000000000 200000000000 # ?es) ex_two \<noteq> None"
    by simp
  have n: "map_of (assocs ex_two) (ex_key ex_uc) = None"
    by (simp add: ex_two_def ex_key_def ex_uc_def)
  have sp: "spaced ex_key (idle_of 300) (ex_key ex_uc) 200000000000 ?es"
    by (simp add: ex_clk_def ex_numbers)
  from association_stable [OF ex_two_run] r n sp
  have "key_calls ex_key (idle_of 300) (ex_key ex_uc)
          (Datagram ex_uc ''PING'' True 200000000000 200000000000 # ?es) ex_two =
          [DialUDP (Some (nsock ex_two)), AddUDP 1, Go (nsock ex_two)] @
          map (UWrite (nsock ex_two))
            (key_payloads ex_key (ex_key ex_uc)
               (Datagram ex_uc ''PING'' True 200000000000 200000000000 # ?es))"
    by blast
  then have "key_calls ex_key (idle_of 300) (ex_key ex_uc)
          (Datagram ex_uc ''PING'' True 200000000000 200000000000 # ?es) ex_two =
          [DialUDP (Some 2), AddUDP 1, Go 2, UWrite 2 ''PING'', UWrite 2 ''PONG'']"
    by (simp add: ex_two_def)
  with ex_two_run r n sp show ?thesis by simp
qed

text \<open>
  The dial for the first datagram fails: that datagram is dropped, the next one from the same
  address dials again, so the two datagrams cause two dials and only one of them is
  forwarded.
\<close>
theorem association_stable_counterexample:
  "spaced ex_key (idle_of 300) (ex_key ex_ua) 0 [Datagram ex_ua ''PONG'' True 1 1] \<and>
   key_calls ex_key (idle_of 300) (ex_key ex_ua)
     [Datagram ex_ua ''PING'' False 0 0, Datagram ex_ua ''PONG'' True 1 1] udp_init =
     [DialUDP None, ULog ''dial udp backend: %v'', DialUDP (Some 0), AddUDP 1, Go 0, UWrite 0 ''PONG'']"
  by (simp add: ex_numbers udp_init_def dispatch_def ReadFrom_def forward_def refresh_def Let_def)




end
